theory Spec2Isabelle
  imports Complex_Main "HOL-Library.Char_ord" "HOL-Library.List_Lexorder" "HOL-Library.Log_Nat"
begin

section \<open>Python values, exceptions and containers\<close>

text \<open>
  A token is a Python \<open>str\<close>. Python compares strings lexicographically by code point;
  here a string is a list of 8-bit characters ordered lexicographically by character code
  (\<open>Char_ord\<close>, \<open>List_Lexorder\<close>), which is the same order on the ASCII tokens that
  the extractor produces (pitch names such as \<open>C#4\<close>, chords such as \<open>0.4.7\<close>).
\<close>

type_synonym token = string

text \<open>
  The exceptions that the modelled code can raise. \<open>OtherError\<close> stands for any exception
  of a collaborator (the score parser), named by its message.
\<close>

datatype py_error =
  IndexError | KeyError | ValueError | AttributeError | OverflowError
  | FileNotFoundError | PermissionError | OtherError string

text \<open>\<open>xs[i:j]\<close> for \<open>0 \<le> i\<close>: slicing clamps at the end of the list and never raises.\<close>

definition py_slice :: "'a list \<Rightarrow> nat \<Rightarrow> nat \<Rightarrow> 'a list" where
  "py_slice xs i j = take (j - i) (drop i xs)"

text \<open>\<open>xs[i]\<close> for \<open>0 \<le> i\<close>: raises \<open>IndexError\<close> out of range.\<close>

definition py_index :: "'a list \<Rightarrow> nat \<Rightarrow> py_error + 'a" where
  "py_index xs i = (if i < length xs then Inr (xs ! i) else Inl IndexError)"

text \<open>\<open>d[k]\<close>: raises \<open>KeyError\<close> for a missing key.\<close>

definition py_getitem :: "('k \<rightharpoonup> 'v) \<Rightarrow> 'k \<Rightarrow> py_error + 'v" where
  "py_getitem d k = (case d k of None \<Rightarrow> Inl KeyError | Some v \<Rightarrow> Inr v)"

text \<open>\<open>dict(pairs)\<close>: the pairs are stored from left to right, a later pair overwriting
  an earlier one with the same key.\<close>

definition dict_of :: "('k \<times> 'v) list \<Rightarrow> ('k \<rightharpoonup> 'v)" where
  "dict_of ps = fold (\<lambda>(k, v) m. m(k \<mapsto> v)) ps Map.empty"

text \<open>\<open>range(0, stop)\<close> for a Python integer \<open>stop\<close>: empty when \<open>stop \<le> 0\<close>.\<close>

definition py_range :: "int \<Rightarrow> nat list" where
  "py_range stop = [0 ..< nat stop]"

text \<open>\<open>[d[k] for k in ks]\<close>: the first missing key raises.\<close>

fun lookup_each :: "('k \<rightharpoonup> 'v) \<Rightarrow> 'k list \<Rightarrow> py_error + 'v list" where
  "lookup_each d [] = Inr []"
| "lookup_each d (k # ks) =
     (case py_getitem d k of
        Inl e \<Rightarrow> Inl e
      | Inr v \<Rightarrow> (case lookup_each d ks of Inl e \<Rightarrow> Inl e | Inr vs \<Rightarrow> Inr (v # vs)))"

section \<open>64-bit floats\<close>

text \<open>
  A finite \<open>float64\<close> value is the rational number it stands for; \<open>-0.0\<close> is not
  distinguished from \<open>0.0\<close>. Arithmetic rounds the exact result to the nearest
  \<open>float64\<close>, ties to the even significand (IEEE 754, the default mode).
\<close>

datatype npfloat = Finite rat | Inf | NegInf | NaN

text \<open>Rounding to the nearest integer, a tie to the even one.\<close>

definition round_half_even :: "rat \<Rightarrow> int" where
  "round_half_even x =
     (let f = \<lfloor>x\<rfloor>; r = x - of_int f
      in if r < 1 / 2 then f else if 1 / 2 < r then f + 1 else if even f then f else f + 1)"

text \<open>The exponent \<open>e\<close> of a positive rational \<open>q\<close>: \<open>2 ^ e \<le> q < 2 ^ (e + 1)\<close>.\<close>

definition binade :: "rat \<Rightarrow> int" where
  "binade q = (if 1 \<le> q then bitlen \<lfloor>q\<rfloor> - 1 else - bitlen (\<lceil>1 / q\<rceil> - 1))"

text \<open>
  The \<open>float64\<close> nearest to a non-negative rational, were the exponent unbounded above:
  a significand of 53 bits, and the spacing \<open>2 ^ (- 1074)\<close> of the subnormal numbers
  below \<open>2 ^ (- 1022)\<close>.
\<close>

definition f64_nearest :: "rat \<Rightarrow> rat" where
  "f64_nearest q =
     (if q \<le> 0 then 0
      else (let e = max (binade q) (- 1022); ulp = 2 powi (e - 52)
            in of_int (round_half_even (q / ulp)) * ulp))"

text \<open>A result of this magnitude or more rounds to infinity: the largest finite
  \<open>float64\<close> is \<open>2 ^ 1024 - 2 ^ 971\<close>, and half a spacing above it lies this bound.\<close>

definition f64_overflow :: rat where
  "f64_overflow = 2 ^ 1024 - 2 ^ 970"

definition round_f64 :: "rat \<Rightarrow> npfloat" where
  "round_f64 q =
     (if f64_overflow \<le> q then Inf
      else if q \<le> - f64_overflow then NegInf
      else if 0 \<le> q then Finite (f64_nearest q)
      else Finite (- f64_nearest (- q)))"

text \<open>The conversion of an integer that is within the finite range.\<close>

definition f64_of_int :: "int \<Rightarrow> rat" where
  "f64_of_int k = (if 0 \<le> k then f64_nearest (of_int k) else - f64_nearest (of_int (- k)))"

text \<open>\<open>float(n)\<close> of a Python integer: the nearest \<open>float64\<close>, and \<open>OverflowError\<close>
  when that is not finite.\<close>

definition py_float :: "int \<Rightarrow> py_error + rat" where
  "py_float n = (if f64_overflow \<le> \<bar>of_int n\<bar> then Inl OverflowError else Inr (f64_of_int n))"

section \<open>Arrays\<close>

text \<open>
  A NumPy array is its shape and its elements in row-major order.
\<close>

record 'a ndarray =
  shape :: "nat list"
  data :: "'a list"

text \<open>\<open>numpy.reshape(rows, newshape)\<close> of a list of rows: the rows are laid out one
  after the other; a ragged list or a shape of another size raises \<open>ValueError\<close>.\<close>

definition np_reshape :: "'a list list \<Rightarrow> nat list \<Rightarrow> py_error + 'a ndarray" where
  "np_reshape rows newshape =
     (if list_all (\<lambda>r. length r = length (hd rows)) rows
         \<and> length (concat rows) = prod_list newshape
      then Inr \<lparr>shape = newshape, data = concat rows\<rparr>
      else Inl ValueError)"

text \<open>
  One element of \<open>array / divisor\<close> for an array of integer codes (which are list
  positions, held as 64-bit integers) and a \<open>float64\<close> divisor: the code is converted
  to \<open>float64\<close> and divided. NumPy does not raise on a zero divisor, it yields \<open>nan\<close>
  for \<open>0 / 0.0\<close> and \<open>inf\<close> for a positive element.
\<close>

definition true_divide :: "nat \<Rightarrow> rat \<Rightarrow> npfloat" where
  "true_divide c d =
     (let x = f64_of_int (int c)
      in if d = 0 then (if x = 0 then NaN else Inf) else round_f64 (x / d))"

definition np_divide :: "nat ndarray \<Rightarrow> rat \<Rightarrow> npfloat ndarray" where
  "np_divide a d = \<lparr>shape = shape a, data = map (\<lambda>c. true_divide c d) (data a)\<rparr>"

text \<open>\<open>numpy.max\<close> of a one-dimensional array: a zero-size array has no maximum and
  raises \<open>ValueError\<close>.\<close>

definition np_max :: "nat list \<Rightarrow> py_error + nat" where
  "np_max y = (case y of [] \<Rightarrow> Inl ValueError | v # vs \<Rightarrow> Inr (fold max vs v))"

definition one_hot :: "nat \<Rightarrow> nat \<Rightarrow> rat list" where
  "one_hot num_classes c = map (\<lambda>j. if j = c then 1 else 0) [0 ..< num_classes]"

text \<open>
  \<open>keras.utils.to_categorical(y)\<close> with no \<open>num_classes\<close>: the number of classes is
  inferred as \<open>max(y) + 1\<close>, and the result is a matrix of zeros of shape
  \<open>(len(y), num_classes)\<close> with a one at column \<open>y[i]\<close> of row \<open>i\<close>.
\<close>

definition to_categorical :: "nat list \<Rightarrow> py_error + rat ndarray" where
  "to_categorical y =
     (case np_max y of
        Inl e \<Rightarrow> Inl e
      | Inr m \<Rightarrow>
          (let num_classes = m + 1; n = length y
           in Inr \<lparr>shape = [n, num_classes], data = concat (map (one_hot num_classes) y)\<rparr>))"

section \<open>The sequence encoder: \<open>prepare_sequences\<close>\<close>

text \<open>\<open>sequence_length = 100\<close>.\<close>

definition sequence_length :: nat where
  "sequence_length = 100"

text \<open>\<open>pitch_names = sorted(set(note for note in notes))\<close>.\<close>

definition pitch_names_of :: "token list \<Rightarrow> token list" where
  "pitch_names_of ns = sort (remdups ns)"

text \<open>\<open>pitch_to_int = dict((pitch, number) for number, pitch in enumerate(pitch_names))\<close>.\<close>

definition pitch_to_int_of :: "token list \<Rightarrow> (token \<rightharpoonup> nat)" where
  "pitch_to_int_of pitch_names =
     dict_of (map (\<lambda>(number, pitch). (pitch, number)) (enumerate 0 pitch_names))"

text \<open>The vocabulary that \<open>prepare_sequences\<close> builds from a corpus (lines 81 to 84).\<close>

definition vocabulary :: "token list \<Rightarrow> (token \<rightharpoonup> nat)" where
  "vocabulary ns = pitch_to_int_of (pitch_names_of ns)"

text \<open>
  The variables that the loop reads and updates: the caller's list \<open>notes\<close> (the field
  \<open>notes_list\<close>) and the two lists that the loop appends to.
\<close>

record locals =
  notes_list :: "token list"
  input_sequences :: "nat list list"
  output_sequence :: "nat list"

text \<open>
  One iteration of the loop, with window length \<open>W\<close>. The result is the exception raised,
  if any, and the variables at that point: the window is appended before the target is
  looked up.
\<close>

definition loop_body :: "nat \<Rightarrow> (token \<rightharpoonup> nat) \<Rightarrow> nat \<Rightarrow> locals \<Rightarrow> py_error option \<times> locals" where
  "loop_body W pitch_to_int i s =
     (let sequence_in = py_slice (notes_list s) i (i + W)
      in case py_index (notes_list s) (i + W) of
           Inl e \<Rightarrow> (Some e, s)
         | Inr sequence_out \<Rightarrow>
             (case lookup_each pitch_to_int sequence_in of
                Inl e \<Rightarrow> (Some e, s)
              | Inr codes \<Rightarrow>
                  (let s1 = s\<lparr>input_sequences := input_sequences s @ [codes]\<rparr>
                   in case py_getitem pitch_to_int sequence_out of
                        Inl e \<Rightarrow> (Some e, s1)
                      | Inr code \<Rightarrow>
                          (None, s1\<lparr>output_sequence := output_sequence s1 @ [code]\<rparr>))))"

fun for_loop :: "nat \<Rightarrow> (token \<rightharpoonup> nat) \<Rightarrow> nat list \<Rightarrow> locals \<Rightarrow> py_error option \<times> locals" where
  "for_loop W d [] s = (None, s)"
| "for_loop W d (i # is) s =
     (case loop_body W d i s of
        (Some e, s') \<Rightarrow> (Some e, s')
      | (None, s') \<Rightarrow> for_loop W d is s')"

text \<open>Lines 78 to 100: the vocabulary and the loop over
  \<open>range(0, len(notes) - sequence_length)\<close>.\<close>

definition windowing :: "nat \<Rightarrow> token list \<Rightarrow> py_error option \<times> locals" where
  "windowing W ns =
     (let pitch_names = pitch_names_of ns;
          pitch_to_int = pitch_to_int_of pitch_names;
          s0 = \<lparr>notes_list = ns, input_sequences = [], output_sequence = []\<rparr>
      in for_loop W pitch_to_int (py_range (int (length ns) - int W)) s0)"

text \<open>Lines 102 to 113: reshape, normalise by the caller's class count, one-hot encode.\<close>

definition tensors ::
  "nat \<Rightarrow> locals \<Rightarrow> int \<Rightarrow> py_error + (npfloat ndarray \<times> rat ndarray)" where
  "tensors W s num_pitch_classes =
     (let num_sequences = length (input_sequences s)
      in case np_reshape (input_sequences s) [num_sequences, W, 1] of
           Inl e \<Rightarrow> Inl e
         | Inr reshaped \<Rightarrow>
             (case py_float num_pitch_classes of
                Inl e \<Rightarrow> Inl e
              | Inr divisor \<Rightarrow>
                  (let normalized = np_divide reshaped divisor
                   in case to_categorical (output_sequence s) of
                        Inl e \<Rightarrow> Inl e
                      | Inr categorical \<Rightarrow> Inr (normalized, categorical))))"

text \<open>
  The whole function with the window length as a parameter: what it returns or raises,
  and its variables when it stops.
\<close>

definition prepare_sequences_with ::
  "nat \<Rightarrow> token list \<Rightarrow> int \<Rightarrow> (py_error + (npfloat ndarray \<times> rat ndarray)) \<times> locals" where
  "prepare_sequences_with W ns num_pitch_classes =
     (case windowing W ns of
        (Some e, s) \<Rightarrow> (Inl e, s)
      | (None, s) \<Rightarrow> (tensors W s num_pitch_classes, s))"

text \<open>\<open>prepare_sequences(notes, num_pitch_classes)\<close>: the window length is the constant.\<close>

definition prepare_sequences ::
  "token list \<Rightarrow> int \<Rightarrow> py_error + (npfloat ndarray \<times> rat ndarray)" where
  "prepare_sequences ns num_pitch_classes =
     fst (prepare_sequences_with sequence_length ns num_pitch_classes)"

text \<open>The examples that the loop of \<open>prepare_sequences\<close> has built when it ends.\<close>

definition training_examples :: "token list \<Rightarrow> py_error option \<times> locals" where
  "training_examples ns = windowing sequence_length ns"

text \<open>The window and the target of the example at offset \<open>i\<close>, as codes.\<close>

definition window_codes :: "nat \<Rightarrow> token list \<Rightarrow> nat \<Rightarrow> nat list" where
  "window_codes W ns i = map (\<lambda>k. the (vocabulary ns k)) (py_slice ns i (i + W))"

definition target_code :: "nat \<Rightarrow> token list \<Rightarrow> nat \<Rightarrow> nat" where
  "target_code W ns i = the (vocabulary ns (ns ! (i + W)))"

text \<open>Row \<open>i\<close> of a two-dimensional array, and the element \<open>a[i][j][k]\<close> of a
  three-dimensional one (row-major layout).\<close>

definition row2 :: "'a ndarray \<Rightarrow> nat \<Rightarrow> 'a list" where
  "row2 a i = (let w = shape a ! 1 in take w (drop (i * w) (data a)))"

definition item3 :: "'a ndarray \<Rightarrow> nat \<Rightarrow> nat \<Rightarrow> nat \<Rightarrow> 'a" where
  "item3 a i j k = data a ! ((i * (shape a ! 1) + j) * (shape a ! 2) + k)"

section \<open>The event extractor: \<open>get_notes\<close>\<close>

text \<open>
  An element of a score's event stream (the loop variable \<open>structure\<close>), as
  \<open>get_notes\<close> distinguishes them: a note with
  the string of its pitch (\<open>str(structure.pitch)\<close>), a chord with its normal order
  (\<open>structure.normalOrder\<close>, a list of integers), or anything else.
\<close>

datatype stream_element = Note string | Chord "int list" | Other

text \<open>\<open>str(i)\<close> of a Python integer: decimal digits, with a minus sign when negative.\<close>

fun str_nat :: "nat \<Rightarrow> string" where
  "str_nat n =
     (if n < 10 then [''0123456789'' ! n]
      else str_nat (n div 10) @ [''0123456789'' ! (n mod 10)])"

definition py_str :: "int \<Rightarrow> string" where
  "py_str i = (if i < 0 then CHR ''-'' # str_nat (nat (- i)) else str_nat (nat i))"

text \<open>\<open>sep.join(xs)\<close>.\<close>

fun py_join :: "string \<Rightarrow> string list \<Rightarrow> string" where
  "py_join sep [] = []"
| "py_join sep [x] = x"
| "py_join sep (x # y # ys) = x @ sep @ py_join sep (y # ys)"

text \<open>
  The collaborators of \<open>get_notes\<close>, which are not part of the repository: the file
  name expansion \<open>glob.glob\<close>, the score parser (\<open>music21.converter.parse\<close>, which can
  raise; \<open>music21.instrument.partitionByInstrument\<close>, which can raise or return
  \<open>None\<close>; the \<open>parts\<close> of a partitioned score; the \<open>recurse()\<close> stream of a part;
  the \<open>flat.notes\<close> stream of a score) and the serialiser \<open>pickle.dump\<close>. A score is a
  value of any type \<open>'score\<close>, the content of a file a value of any type \<open>'blob\<close>.
\<close>

record ('score, 'blob) collaborators =
  glob_glob :: "string \<Rightarrow> string list"
  converter_parse :: "string \<Rightarrow> py_error + 'score"
  partitionByInstrument :: "'score \<Rightarrow> py_error + 'score option"
  parts :: "'score \<Rightarrow> 'score list"
  recurse :: "'score \<Rightarrow> stream_element list"
  flat_notes :: "'score \<Rightarrow> py_error + stream_element list"
  pickle_dump :: "token list \<Rightarrow> 'blob"

text \<open>
  The world outside \<open>get_notes\<close>: the files, by path; what opening a path for writing
  does (\<open>None\<close> when \<open>open(path, 'wb')\<close> succeeds, otherwise the exception it raises:
  \<open>FileNotFoundError\<close> when the directory of the path does not exist,
  \<open>PermissionError\<close> when it may not be written); and the lines printed.
\<close>

record 'blob world =
  files :: "string \<rightharpoonup> 'blob"
  open_for_writing :: "string \<Rightarrow> py_error option"
  console :: "string list"

text \<open>
  The body of the \<open>try\<close> (lines 49 and 50): \<open>None.parts\<close> raises \<open>AttributeError\<close>,
  \<open>parts[0]\<close> of an empty list of parts raises \<open>IndexError\<close>.
\<close>

definition instrument_part_stream ::
  "('score, 'blob) collaborators \<Rightarrow> 'score \<Rightarrow> py_error + stream_element list" where
  "instrument_part_stream env parsed_midi =
     (case partitionByInstrument env parsed_midi of
        Inl e \<Rightarrow> Inl e
      | Inr None \<Rightarrow> Inl AttributeError
      | Inr (Some instrument_parts) \<Rightarrow>
          (case py_index (parts env instrument_parts) 0 of
             Inl e \<Rightarrow> Inl e
           | Inr part \<Rightarrow> Inr (recurse env part)))"

text \<open>
  Lines 46 to 53: the bare \<open>except\<close> catches every exception of the \<open>try\<close> body; an
  exception of \<open>parsed_midi.flat.notes\<close> in the handler is not caught.
\<close>

definition notes_by_instrument ::
  "('score, 'blob) collaborators \<Rightarrow> 'score \<Rightarrow> py_error + stream_element list" where
  "notes_by_instrument env parsed_midi =
     (case instrument_part_stream env parsed_midi of
        Inr stream \<Rightarrow> Inr stream
      | Inl e \<Rightarrow> flat_notes env parsed_midi)"

text \<open>Lines 56 to 62: the inner loop appends one token per note and per chord.\<close>

fun append_structures :: "stream_element list \<Rightarrow> token list \<Rightarrow> token list" where
  "append_structures [] ns = ns"
| "append_structures (Note pitch # rest) ns = append_structures rest (ns @ [pitch])"
| "append_structures (Chord normalOrder # rest) ns =
     append_structures rest (ns @ [py_join ''.'' (map py_str normalOrder)])"
| "append_structures (Other # rest) ns = append_structures rest ns"

text \<open>
  Lines 42 to 62: the loop over the files. The result is the list \<open>notes\<close>, or the
  exception that ended the loop, and the world at that point.
\<close>

fun files_loop ::
  "('score, 'blob) collaborators \<Rightarrow> string list \<Rightarrow> token list \<Rightarrow> 'blob world
     \<Rightarrow> (py_error + token list) \<times> 'blob world" where
  "files_loop env [] ns w = (Inr ns, w)"
| "files_loop env (file # rest) ns w =
     (let w1 = w\<lparr>console := console w @ [''Parsing file '' @ file]\<rparr>
      in case converter_parse env file of
           Inl e \<Rightarrow> (Inl e, w1)
         | Inr parsed_midi \<Rightarrow>
             (case notes_by_instrument env parsed_midi of
                Inl e \<Rightarrow> (Inl e, w1)
              | Inr stream \<Rightarrow> files_loop env rest (append_structures stream ns) w1))"

text \<open>\<open>get_notes(directory)\<close>: after the loop, \<open>data/notes\<close> is opened with mode
  \<open>wb\<close>; an exception of \<open>open\<close> is not caught and leaves the files as they were.
  Otherwise the list is written, replacing the content, and returned.\<close>

definition get_notes ::
  "('score, 'blob) collaborators \<Rightarrow> string \<Rightarrow> 'blob world
     \<Rightarrow> (py_error + token list) \<times> 'blob world" where
  "get_notes env directory w =
     (case files_loop env (glob_glob env directory) [] w of
        (Inl e, w1) \<Rightarrow> (Inl e, w1)
      | (Inr ns, w1) \<Rightarrow>
          (case open_for_writing w1 ''data/notes'' of
             Some e \<Rightarrow> (Inl e, w1)
           | None \<Rightarrow>
               (Inr ns, w1\<lparr>files := (files w1)(''data/notes'' \<mapsto> pickle_dump env ns)\<rparr>)))"

text \<open>The tokens of one stream, and the stream that one file contributes.\<close>

definition stream_tokens :: "stream_element list \<Rightarrow> token list" where
  "stream_tokens stream = append_structures stream []"

definition file_stream ::
  "('score, 'blob) collaborators \<Rightarrow> string \<Rightarrow> py_error + stream_element list" where
  "file_stream env file =
     (case converter_parse env file of
        Inl e \<Rightarrow> Inl e
      | Inr parsed_midi \<Rightarrow> notes_by_instrument env parsed_midi)"

text \<open>The tokens that one file contributes to the corpus (none when it raises).\<close>

definition file_tokens :: "('score, 'blob) collaborators \<Rightarrow> string \<Rightarrow> token list" where
  "file_tokens env file =
     (case file_stream env file of Inl e \<Rightarrow> [] | Inr stream \<Rightarrow> stream_tokens stream)"

section \<open>Corpora used as concrete inputs\<close>

text \<open>The corpus of the spec's scenario, and a corpus of 101 tokens whose
  largest token occurs only at the start.\<close>

definition scenario_corpus :: "token list" where
  "scenario_corpus = [''C4'', ''D4'', ''E4'', ''C4'']"

definition late_token_corpus :: "token list" where
  "late_token_corpus = ''B'' # replicate 100 ''A''"

text \<open>
  Concrete collaborators: the pattern \<open>midi/*.mid\<close> matches two files that parse, the
  first with a piano part, the second with no instrument (the partition is \<open>None\<close>);
  the pattern \<open>mixed/*\<close> also matches a file that does not parse; any other pattern
  matches nothing. A file's content is the list written to it. In the first concrete
  world a corpus has been written to \<open>data/notes\<close> before; in the second there is no
  directory \<open>data\<close>.
\<close>

definition demo_env :: "(string, token list) collaborators" where
  "demo_env =
     \<lparr>glob_glob = (\<lambda>pattern.
          if pattern = ''midi/*.mid'' then [''midi/a.mid'', ''midi/b.mid'']
          else if pattern = ''mixed/*'' then [''midi/a.mid'', ''mixed/readme.txt'', ''midi/b.mid'']
          else []),
      converter_parse = (\<lambda>file.
          if file = ''midi/a.mid'' then Inr ''score a''
          else if file = ''midi/b.mid'' then Inr ''score b''
          else Inl (OtherError ''not a score'')),
      partitionByInstrument = (\<lambda>score.
          if score = ''score a'' then Inr (Some ''score a by instrument'') else Inr None),
      parts = (\<lambda>score. if score = ''score a by instrument'' then [''piano''] else []),
      recurse = (\<lambda>part. [Other, Note ''C4'', Chord [0, 4, 7]]),
      flat_notes = (\<lambda>score. Inr [Note ''E4'', Other, Note ''C4'']),
      pickle_dump = (\<lambda>ns. ns)\<rparr>"

definition demo_world :: "token list world" where
  "demo_world =
     \<lparr>files = [''data/notes'' \<mapsto> [''G4'']],
      open_for_writing = (\<lambda>path. None),
      console = []\<rparr>"

definition no_data_directory_world :: "token list world" where
  "no_data_directory_world =
     \<lparr>files = Map.empty,
      open_for_writing = (\<lambda>path. if path = ''data/notes'' then Some FileNotFoundError else None),
      console = []\<rparr>"

section \<open>The vocabulary\<close>

lemma dict_fold_notin:
  "t \<notin> set xs \<Longrightarrow>
   fold (\<lambda>(k, v) m. m(k \<mapsto> v)) (map (\<lambda>(number, pitch). (pitch, number)) (enumerate n xs)) m t = m t"
  by (induction xs arbitrary: n m) auto

lemma dict_fold_nth:
  "distinct xs \<Longrightarrow> k < length xs \<Longrightarrow>
   fold (\<lambda>(k, v) m. m(k \<mapsto> v)) (map (\<lambda>(number, pitch). (pitch, number)) (enumerate n xs)) m (xs ! k)
     = Some (n + k)"
proof (induction xs arbitrary: n m k)
  case Nil
  then show ?case by simp
next
  case (Cons x xs)
  show ?case
  proof (cases k)
    case 0
    from Cons.prems have "x \<notin> set xs" by simp
    from dict_fold_notin [OF this, of "Suc n" "m(x \<mapsto> n)"] 0 show ?thesis
      by (simp add: fun_upd_same del: fun_upd_apply)
  next
    case (Suc j)
    with Cons.prems Cons.IH [of j "Suc n"] show ?thesis by simp
  qed
qed

lemma pitch_to_int_nth:
  "distinct xs \<Longrightarrow> k < length xs \<Longrightarrow> pitch_to_int_of xs (xs ! k) = Some k"
  using dict_fold_nth [of xs k 0 Map.empty] by (simp add: pitch_to_int_of_def dict_of_def)

lemma pitch_to_int_notin:
  "t \<notin> set xs \<Longrightarrow> pitch_to_int_of xs t = None"
  using dict_fold_notin [of t xs 0 Map.empty] by (simp add: pitch_to_int_of_def dict_of_def)

lemma pitch_names_sorted: "sorted_wrt (<) (pitch_names_of ns)"
  by (simp add: pitch_names_of_def strict_sorted_iff)

lemma pitch_names_distinct: "distinct (pitch_names_of ns)"
  by (simp add: pitch_names_of_def)

lemma pitch_names_set: "set (pitch_names_of ns) = set ns"
  by (simp add: pitch_names_of_def)

lemma pitch_names_length: "length (pitch_names_of ns) = card (set ns)"
  by (simp add: pitch_names_of_def length_remdups_card_conv)

lemma vocabulary_nth:
  "k < card (set ns) \<Longrightarrow> vocabulary ns (pitch_names_of ns ! k) = Some k"
  by (simp add: vocabulary_def pitch_to_int_nth pitch_names_distinct pitch_names_length)

lemma vocabulary_dom: "dom (vocabulary ns) = set ns"
proof
  show "dom (vocabulary ns) \<subseteq> set ns"
  proof
    fix t assume "t \<in> dom (vocabulary ns)"
    then have "vocabulary ns t \<noteq> None" by blast
    moreover have "t \<in> set (pitch_names_of ns)"
    proof (rule ccontr)
      assume "t \<notin> set (pitch_names_of ns)"
      then have "vocabulary ns t = None" by (simp add: vocabulary_def pitch_to_int_notin)
      with \<open>vocabulary ns t \<noteq> None\<close> show False by simp
    qed
    then show "t \<in> set ns" by (simp add: pitch_names_set)
  qed
next
  show "set ns \<subseteq> dom (vocabulary ns)"
  proof
    fix t assume "t \<in> set ns"
    then have "t \<in> set (pitch_names_of ns)" by (simp add: pitch_names_set)
    then obtain k where "k < length (pitch_names_of ns)" "pitch_names_of ns ! k = t"
      by (auto simp: in_set_conv_nth)
    then have "vocabulary ns t = Some k"
      using pitch_to_int_nth [OF pitch_names_distinct, of k ns] by (simp add: vocabulary_def)
    then show "t \<in> dom (vocabulary ns)" by blast
  qed
qed

lemma vocabulary_Some:
  "t \<in> set ns \<Longrightarrow> \<exists>k < card (set ns). vocabulary ns t = Some k \<and> pitch_names_of ns ! k = t"
proof -
  assume "t \<in> set ns"
  then have "t \<in> set (pitch_names_of ns)" by (simp add: pitch_names_set)
  then obtain k where k: "k < length (pitch_names_of ns)" "pitch_names_of ns ! k = t"
    by (auto simp: in_set_conv_nth)
  then have "vocabulary ns t = Some k"
    using pitch_to_int_nth [OF pitch_names_distinct, of k ns] by (simp add: vocabulary_def)
  with k show ?thesis by (auto simp: pitch_names_length)
qed

section \<open>The loop\<close>

lemma lookup_each_dom:
  "set ks \<subseteq> dom d \<Longrightarrow> lookup_each d ks = Inr (map (\<lambda>k. the (d k)) ks)"
  by (induction ks) (auto simp: py_getitem_def)

lemma loop_body_ok:
  assumes "set (notes_list s) \<subseteq> dom d" and "i + W < length (notes_list s)"
  shows "loop_body W d i s =
    (None, s\<lparr>input_sequences := input_sequences s @ [map (\<lambda>k. the (d k)) (py_slice (notes_list s) i (i + W))],
             output_sequence := output_sequence s @ [the (d (notes_list s ! (i + W)))]\<rparr>)"
proof -
  have sl: "set (py_slice (notes_list s) i (i + W)) \<subseteq> dom d"
    using assms(1) by (auto simp: py_slice_def dest: in_set_takeD in_set_dropD)
  have "notes_list s ! (i + W) \<in> dom d"
    using assms by (meson nth_mem subsetD)
  then obtain c where c: "d (notes_list s ! (i + W)) = Some c" by blast
  show ?thesis
    using assms(2) c by (simp add: loop_body_def py_index_def lookup_each_dom [OF sl] py_getitem_def)
qed

lemma for_loop_ok:
  assumes "set (notes_list s) \<subseteq> dom d" and "\<forall>i\<in>set is. i + W < length (notes_list s)"
  shows "for_loop W d is s =
    (None, s\<lparr>input_sequences := input_sequences s
                 @ map (\<lambda>i. map (\<lambda>k. the (d k)) (py_slice (notes_list s) i (i + W))) is,
             output_sequence := output_sequence s
                 @ map (\<lambda>i. the (d (notes_list s ! (i + W)))) is\<rparr>)"
  using assms
proof (induction "is" arbitrary: s)
  case Nil
  then show ?case by simp
next
  case (Cons i "is")
  let ?s' = "s\<lparr>input_sequences := input_sequences s @ [map (\<lambda>k. the (d k)) (py_slice (notes_list s) i (i + W))],
             output_sequence := output_sequence s @ [the (d (notes_list s ! (i + W)))]\<rparr>"
  have b: "loop_body W d i s = (None, ?s')"
    using Cons.prems by (intro loop_body_ok) auto
  have "for_loop W d is ?s' = (None, ?s'\<lparr>input_sequences := input_sequences ?s'
                 @ map (\<lambda>i. map (\<lambda>k. the (d k)) (py_slice (notes_list ?s') i (i + W))) is,
             output_sequence := output_sequence ?s'
                 @ map (\<lambda>i. the (d (notes_list ?s' ! (i + W)))) is\<rparr>)"
    using Cons.prems by (intro Cons.IH) auto
  with b show ?case by simp
qed

lemma windowing_eq:
  "windowing W ns =
     (None, \<lparr>notes_list = ns,
             input_sequences = map (window_codes W ns) [0 ..< length ns - W],
             output_sequence = map (target_code W ns) [0 ..< length ns - W]\<rparr>)"
proof -
  let ?s0 = "\<lparr>notes_list = ns, input_sequences = [], output_sequence = []\<rparr>"
  have r: "py_range (int (length ns) - int W) = [0 ..< length ns - W]"
    by (simp add: py_range_def nat_diff_distrib')
  have "for_loop W (vocabulary ns) [0 ..< length ns - W] ?s0 =
    (None, ?s0\<lparr>input_sequences := input_sequences ?s0
                 @ map (\<lambda>i. map (\<lambda>k. the (vocabulary ns k)) (py_slice (notes_list ?s0) i (i + W))) [0 ..< length ns - W],
             output_sequence := output_sequence ?s0
                 @ map (\<lambda>i. the (vocabulary ns (notes_list ?s0 ! (i + W)))) [0 ..< length ns - W]\<rparr>)"
    by (intro for_loop_ok) (auto simp: vocabulary_dom)
  then show ?thesis
    by (simp add: windowing_def r vocabulary_def window_codes_def [abs_def] target_code_def [abs_def])
qed

lemma length_window_codes:
  "i + W \<le> length ns \<Longrightarrow> length (window_codes W ns i) = W"
  by (simp add: window_codes_def py_slice_def)

lemma window_codes_nth:
  "i + W \<le> length ns \<Longrightarrow> j < W \<Longrightarrow>
   Some (window_codes W ns i ! j) = vocabulary ns (ns ! (i + j))"
proof -
  assume a: "i + W \<le> length ns" "j < W"
  then have "ns ! (i + j) \<in> set ns" by simp
  then obtain c where "vocabulary ns (ns ! (i + j)) = Some c"
    using vocabulary_Some by blast
  with a show ?thesis by (simp add: window_codes_def py_slice_def)
qed

lemma target_code_Some:
  "i + W < length ns \<Longrightarrow> Some (target_code W ns i) = vocabulary ns (ns ! (i + W))"
proof -
  assume a: "i + W < length ns"
  then have "ns ! (i + W) \<in> set ns" by simp
  then obtain c where "vocabulary ns (ns ! (i + W)) = Some c"
    using vocabulary_Some by blast
  then show ?thesis by (simp add: target_code_def)
qed

section \<open>Arrays: reshape and one-hot rows\<close>

lemma length_concat_uniform:
  "\<forall>r\<in>set rows. length r = w \<Longrightarrow> length (concat rows) = length rows * w"
  by (induction rows) auto

lemma concat_uniform_nth:
  "\<forall>r\<in>set rows. length r = w \<Longrightarrow> i < length rows \<Longrightarrow> j < w \<Longrightarrow>
   concat rows ! (i * w + j) = rows ! i ! j"
proof (induction rows arbitrary: i)
  case Nil
  then show ?case by simp
next
  case (Cons r rows)
  show ?case
  proof (cases i)
    case 0
    with Cons.prems show ?thesis by (simp add: nth_append)
  next
    case (Suc k)
    with Cons.prems have "concat rows ! (k * w + j) = rows ! k ! j"
      by (intro Cons.IH) auto
    moreover have "length r = w" using Cons.prems by simp
    ultimately show ?thesis using Suc by (simp add: nth_append add.assoc)
  qed
qed

lemma concat_uniform_row:
  "\<forall>r\<in>set rows. length r = w \<Longrightarrow> i < length rows \<Longrightarrow>
   take w (drop (i * w) (concat rows)) = rows ! i"
proof (induction rows arbitrary: i)
  case Nil
  then show ?case by simp
next
  case (Cons r rows)
  show ?case
  proof (cases i)
    case 0
    with Cons.prems show ?thesis by simp
  next
    case (Suc k)
    with Cons.prems have "take w (drop (k * w) (concat rows)) = rows ! k"
      by (intro Cons.IH) auto
    moreover have "length r = w" using Cons.prems by simp
    ultimately show ?thesis using Suc by simp
  qed
qed

lemma np_reshape_uniform:
  assumes "\<forall>r\<in>set rows. length r = w"
  shows "np_reshape rows [length rows, w, 1] = Inr \<lparr>shape = [length rows, w, 1], data = concat rows\<rparr>"
proof -
  have "list_all (\<lambda>r. length r = length (hd rows)) rows"
    using assms by (cases rows) (auto simp: list_all_iff)
  then show ?thesis
    using length_concat_uniform [OF assms] by (simp add: np_reshape_def)
qed

lemma np_max_Max:
  assumes "y \<noteq> []"
  shows "np_max y = Inr (Max (set y))"
proof (cases y)
  case Nil
  with assms show ?thesis by simp
next
  case (Cons v vs)
  have "Max (set (v # vs)) = fold max vs v" by (rule Max.set_eq_fold)
  with Cons show ?thesis by (simp add: np_max_def del: set_simps)
qed

lemma to_categorical_nonempty:
  "y \<noteq> [] \<Longrightarrow>
   to_categorical y = Inr \<lparr>shape = [length y, Max (set y) + 1],
                            data = concat (map (one_hot (Max (set y) + 1)) y)\<rparr>"
  by (simp add: to_categorical_def np_max_Max)

lemma to_categorical_empty: "to_categorical [] = Inl ValueError"
  by (simp add: to_categorical_def np_max_def)

lemma length_one_hot: "length (one_hot k c) = k"
  by (simp add: one_hot_def)

lemma sum_list_indicator:
  "sum_list (map (\<lambda>j. if j = c then 1 else 0) [a ..< b]) = (if a \<le> c \<and> c < b then (1::rat) else 0)"
  by (induction b) auto

lemma sum_list_one_hot: "c < k \<Longrightarrow> sum_list (one_hot k c) = 1"
  by (simp add: one_hot_def sum_list_indicator)

lemma count_indicator:
  "length (filter (\<lambda>j. (if j = c then 1 else 0) = (1::rat)) [a ..< b])
     = (if a \<le> c \<and> c < b then 1 else 0)"
  by (induction b) auto

lemma count_one_hot: "c < k \<Longrightarrow> length (filter (\<lambda>x. x = 1) (one_hot k c)) = 1"
  by (simp add: one_hot_def filter_map comp_def count_indicator)

lemma one_hot_nth: "j < k \<Longrightarrow> one_hot k c ! j = (if j = c then 1 else 0)"
  by (simp add: one_hot_def)

section \<open>Rounding to 64-bit floats\<close>

lemma round_half_even_of_int: "round_half_even (of_int k) = k"
  by (simp add: round_half_even_def)

lemma round_half_even_mono:
  assumes "x \<le> y"
  shows "round_half_even x \<le> round_half_even y"
proof (cases "\<lfloor>x\<rfloor> = \<lfloor>y\<rfloor>")
  case True
  with assms show ?thesis
    by (auto simp: round_half_even_def Let_def)
next
  case False
  with assms have "\<lfloor>x\<rfloor> < \<lfloor>y\<rfloor>"
    using floor_mono [OF assms] by simp
  then have "\<lfloor>x\<rfloor> + 1 \<le> \<lfloor>y\<rfloor>" by simp
  moreover have "round_half_even x \<le> \<lfloor>x\<rfloor> + 1"
    by (simp add: round_half_even_def Let_def)
  moreover have "\<lfloor>y\<rfloor> \<le> round_half_even y"
    by (simp add: round_half_even_def Let_def)
  ultimately show ?thesis by linarith
qed

lemma round_half_even_ge: "of_int k \<le> x \<Longrightarrow> k \<le> round_half_even x"
  using round_half_even_mono [of "of_int k" x] by (simp add: round_half_even_of_int)

lemma round_half_even_le: "x \<le> of_int k \<Longrightarrow> round_half_even x \<le> k"
  using round_half_even_mono [of x "of_int k"] by (simp add: round_half_even_of_int)

lemma binade_bounds:
  assumes "0 < q"
  shows "2 powi (binade q) \<le> q" and "q < 2 powi (binade q + 1)"
proof -
  show "2 powi (binade q) \<le> q"
  proof (cases "1 \<le> q")
    case True
    then have m: "0 < \<lfloor>q\<rfloor>" by simp
    from bitlen_bounds [OF m] have b: "2 ^ nat (bitlen \<lfloor>q\<rfloor> - 1) \<le> \<lfloor>q\<rfloor>" by simp
    have pos: "0 \<le> bitlen \<lfloor>q\<rfloor> - 1"
      using m bitlen_eq_zero_iff [of "\<lfloor>q\<rfloor>"] bitlen_nonneg [of "\<lfloor>q\<rfloor>"] by linarith
    from b have "(of_int (2 ^ nat (bitlen \<lfloor>q\<rfloor> - 1)) :: rat) \<le> of_int \<lfloor>q\<rfloor>"
      by (simp only: of_int_le_iff)
    also have "\<dots> \<le> q" by simp
    finally have "(2::rat) ^ nat (bitlen \<lfloor>q\<rfloor> - 1) \<le> q" by simp
    with True pos show ?thesis by (simp add: binade_def power_int_def)
  next
    case False
    with assms have inv: "1 < 1 / q" by simp
    let ?t = "\<lceil>1 / q\<rceil> - 1"
    from inv have t: "0 < ?t" by (simp add: less_ceiling_iff)
    from bitlen_bounds [OF t] have b: "?t < 2 ^ nat (bitlen ?t)" by simp
    then have "\<lceil>1 / q\<rceil> \<le> 2 ^ nat (bitlen ?t)" by simp
    then have c: "(of_int \<lceil>1 / q\<rceil> :: rat) \<le> of_int (2 ^ nat (bitlen ?t))"
      by (simp only: of_int_le_iff)
    have "1 / q \<le> of_int \<lceil>1 / q\<rceil>" by (rule le_of_int_ceiling)
    also note c
    also have "(of_int (2 ^ nat (bitlen ?t)) :: rat) = 2 ^ nat (bitlen ?t)" by simp
    finally have "1 / q \<le> 2 ^ nat (bitlen ?t)" .
    with assms have "1 / 2 ^ nat (bitlen ?t) \<le> q"
      by (simp add: field_simps)
    moreover have "(2::rat) powi (- bitlen ?t) = 1 / 2 ^ nat (bitlen ?t)"
      using bitlen_nonneg [of ?t] by (simp add: power_int_def field_simps)
    ultimately show ?thesis using False by (simp add: binade_def)
  qed
  show "q < 2 powi (binade q + 1)"
  proof (cases "1 \<le> q")
    case True
    then have m: "0 < \<lfloor>q\<rfloor>" by simp
    from bitlen_bounds [OF m] have b: "\<lfloor>q\<rfloor> < 2 ^ nat (bitlen \<lfloor>q\<rfloor>)" by simp
    then have "\<lfloor>q\<rfloor> + 1 \<le> 2 ^ nat (bitlen \<lfloor>q\<rfloor>)" by simp
    then have "(of_int (\<lfloor>q\<rfloor> + 1) :: rat) \<le> of_int (2 ^ nat (bitlen \<lfloor>q\<rfloor>))"
      by (simp only: of_int_le_iff)
    moreover have "q < of_int (\<lfloor>q\<rfloor> + 1)" by linarith
    ultimately have "q < 2 ^ nat (bitlen \<lfloor>q\<rfloor>)" by simp
    with True bitlen_nonneg [of "\<lfloor>q\<rfloor>"] show ?thesis by (simp add: binade_def power_int_def)
  next
    case False
    with assms have inv: "1 < 1 / q" by simp
    let ?t = "\<lceil>1 / q\<rceil> - 1"
    from inv have t: "0 < ?t" by (simp add: less_ceiling_iff)
    have k: "1 \<le> bitlen ?t"
      using t bitlen_eq_zero_iff [of ?t] bitlen_nonneg [of ?t] by linarith
    from bitlen_bounds [OF t] have b: "2 ^ nat (bitlen ?t - 1) \<le> ?t" by simp
    then have "(of_int (2 ^ nat (bitlen ?t - 1)) :: rat) \<le> of_int ?t"
      by (simp only: of_int_le_iff)
    moreover have "of_int ?t < 1 / q" by linarith
    ultimately have "2 ^ nat (bitlen ?t - 1) < 1 / q" by simp
    with assms have "q < 1 / 2 ^ nat (bitlen ?t - 1)"
      by (simp add: field_simps)
    moreover have "(2::rat) powi (- bitlen ?t + 1) = 1 / 2 ^ nat (bitlen ?t - 1)"
    proof (cases "bitlen ?t = 1")
      case True
      then show ?thesis by simp
    next
      case False
      with k have "- bitlen ?t + 1 < 0" by simp
      moreover have "nat (- (- bitlen ?t + 1)) = nat (bitlen ?t - 1)" by simp
      ultimately show ?thesis by (simp add: power_int_def field_simps)
    qed
    ultimately show ?thesis using False by (simp add: binade_def)
  qed
qed


lemma ulp_pos: "(0::rat) < 2 powi e"
  by (simp add: zero_less_power_int)

lemma powi_split_53: "(2::rat) powi (e + 1) = 2 ^ 53 * 2 powi (e - 52)"
proof -
  have "(2::rat) powi (53 + (e - 52)) = 2 powi 53 * 2 powi (e - 52)"
    by (rule power_int_add) simp
  moreover have "53 + (e - 52) = e + 1" by simp
  ultimately show ?thesis by (simp only: power_int_numeral)
qed

lemma powi_split_52: "(2::rat) powi e = 2 ^ 52 * 2 powi (e - 52)"
proof -
  have "(2::rat) powi (52 + (e - 52)) = 2 powi 52 * 2 powi (e - 52)"
    by (rule power_int_add) simp
  moreover have "52 + (e - 52) = e" by simp
  ultimately show ?thesis by (simp only: power_int_numeral)
qed

lemma f64_nearest_nonneg: "0 \<le> f64_nearest q"
proof (cases "q \<le> 0")
  case True
  then show ?thesis by (simp add: f64_nearest_def)
next
  case False
  let ?e = "max (binade q) (- 1022)"
  let ?u = "(2::rat) powi (?e - 52)"
  from False have "0 \<le> q / ?u" using ulp_pos [of "?e - 52"] by simp
  then have "of_int 0 \<le> q / ?u" by simp
  then have "0 \<le> round_half_even (q / ?u)" by (rule round_half_even_ge)
  with False ulp_pos [of "?e - 52"] show ?thesis
    by (simp add: f64_nearest_def Let_def)
qed

lemma f64_nearest_upper:
  assumes "0 < q" and "binade q \<le> e" and "- 1022 \<le> e"
  shows "f64_nearest q \<le> 2 powi (e + 1)"
proof -
  let ?e = "max (binade q) (- 1022)"
  let ?u = "(2::rat) powi (?e - 52)"
  have u: "0 < ?u" by (rule ulp_pos)
  have ee: "?e \<le> e" using assms by simp
  have "q < 2 powi (binade q + 1)" by (rule binade_bounds [OF assms(1)])
  also have "\<dots> \<le> 2 powi (?e + 1)" by (intro power_int_increasing) simp_all
  also have "\<dots> = 2 ^ 53 * ?u" by (rule powi_split_53)
  finally have "q / ?u < 2 ^ 53" using u by (simp add: pos_divide_less_eq)
  then have "q / ?u \<le> of_int (2 ^ 53)" by simp
  then have "round_half_even (q / ?u) \<le> 2 ^ 53" by (rule round_half_even_le)
  then have "(of_int (round_half_even (q / ?u)) :: rat) \<le> of_int (2 ^ 53)"
    by (simp only: of_int_le_iff)
  then have "of_int (round_half_even (q / ?u)) * ?u \<le> of_int (2 ^ 53) * ?u"
    using u by (intro mult_right_mono) simp_all
  also have "of_int (2 ^ 53) * ?u = 2 ^ 53 * ?u" by simp
  also have "\<dots> = 2 powi (?e + 1)" by (rule powi_split_53 [symmetric])
  also have "\<dots> \<le> 2 powi (e + 1)" using ee by (intro power_int_increasing) simp_all
  finally have "of_int (round_half_even (q / ?u)) * ?u \<le> 2 powi (e + 1)" .
  moreover have "f64_nearest q = of_int (round_half_even (q / ?u)) * ?u"
    using assms(1) by (simp add: f64_nearest_def Let_def)
  ultimately show ?thesis by (simp only:)
qed

lemma f64_nearest_lower:
  assumes "0 < q" and "- 1022 \<le> binade q"
  shows "2 powi (binade q) \<le> f64_nearest q"
proof -
  let ?e = "binade q"
  let ?u = "(2::rat) powi (?e - 52)"
  have u: "0 < ?u" by (rule ulp_pos)
  have m: "max (binade q) (- 1022) = ?e" using assms(2) by simp
  have "2 ^ 52 * ?u = 2 powi ?e" by (rule powi_split_52 [symmetric])
  also have "\<dots> \<le> q" by (rule binade_bounds [OF assms(1)])
  finally have "2 ^ 52 \<le> q / ?u" using u by (simp add: pos_le_divide_eq)
  then have "of_int (2 ^ 52) \<le> q / ?u" by simp
  then have "2 ^ 52 \<le> round_half_even (q / ?u)" by (rule round_half_even_ge)
  then have "(of_int (2 ^ 52) :: rat) \<le> of_int (round_half_even (q / ?u))"
    by (simp only: of_int_le_iff)
  then have r: "of_int (2 ^ 52) * ?u \<le> of_int (round_half_even (q / ?u)) * ?u"
    using u by (intro mult_right_mono) simp_all
  have "2 powi ?e = 2 ^ 52 * ?u" by (rule powi_split_52)
  also have "\<dots> = of_int (2 ^ 52) * ?u" by simp
  also note r
  finally have "2 powi ?e \<le> of_int (round_half_even (q / ?u)) * ?u" .
  moreover have "f64_nearest q = of_int (round_half_even (q / ?u)) * ?u"
    using assms(1) m by (simp add: f64_nearest_def Let_def)
  ultimately show ?thesis by (simp only:)
qed

lemma binade_mono:
  assumes "0 < a" and "a \<le> b"
  shows "binade a \<le> binade b"
proof (rule ccontr)
  assume "\<not> binade a \<le> binade b"
  then have "binade b + 1 \<le> binade a" by simp
  then have "(2::rat) powi (binade b + 1) \<le> 2 powi (binade a)"
    by (intro power_int_increasing) simp_all
  also have "\<dots> \<le> a" by (rule binade_bounds [OF assms(1)])
  also note assms(2)
  finally have "(2::rat) powi (binade b + 1) \<le> b" .
  moreover from assms have "0 < b" by simp
  then have "b < 2 powi (binade b + 1)" by (rule binade_bounds)
  ultimately show False by simp
qed

lemma f64_nearest_mono:
  assumes "a \<le> b"
  shows "f64_nearest a \<le> f64_nearest b"
proof (cases "a \<le> 0")
  case True
  then have "f64_nearest a = 0" by (simp add: f64_nearest_def)
  with f64_nearest_nonneg [of b] show ?thesis by simp
next
  case False
  then have a: "0 < a" by simp
  with assms have b: "0 < b" by simp
  let ?ea = "max (binade a) (- 1022)"
  let ?eb = "max (binade b) (- 1022)"
  have le: "?ea \<le> ?eb" using binade_mono [OF a assms] by simp
  show ?thesis
  proof (cases "?ea = ?eb")
    case True
    let ?u = "(2::rat) powi (?ea - 52)"
    have u: "0 < ?u" by (rule ulp_pos)
    from assms u have "a / ?u \<le> b / ?u" by (simp add: divide_right_mono)
    then have "round_half_even (a / ?u) \<le> round_half_even (b / ?u)"
      by (rule round_half_even_mono)
    then have "(of_int (round_half_even (a / ?u)) :: rat) \<le> of_int (round_half_even (b / ?u))"
      by (simp only: of_int_le_iff)
    then have "of_int (round_half_even (a / ?u)) * ?u \<le> of_int (round_half_even (b / ?u)) * ?u"
      using u by (simp add: mult_right_mono)
    with a b True show ?thesis by (simp add: f64_nearest_def Let_def)
  next
    case False
    with le have lt: "?ea < ?eb" by (rule le_neq_trans)
    then have eb: "?eb = binade b" "- 1022 \<le> binade b"
      by (simp_all add: max_def split: if_splits)
    have "f64_nearest a \<le> 2 powi (?ea + 1)"
      by (rule f64_nearest_upper [OF a]) simp_all
    also have "\<dots> \<le> 2 powi (binade b)"
    proof (rule power_int_increasing)
      from lt eb(1) show "?ea + 1 \<le> binade b" by linarith
    qed simp
    also have "\<dots> \<le> f64_nearest b" by (rule f64_nearest_lower [OF b eb(2)])
    finally show ?thesis .
  qed
qed


lemma f64_nearest_of_int:
  assumes "0 \<le> k" and "k \<le> 2 ^ 53"
  shows "f64_nearest (of_int k) = of_int k"
proof (cases "k = 0")
  case True
  then show ?thesis by (simp add: f64_nearest_def)
next
  case False
  with assms have k: "1 \<le> k" by simp
  let ?q = "of_int k :: rat"
  have q: "0 < ?q" "1 \<le> ?q" using k by simp_all
  let ?e = "binade ?q"
  have lo: "2 powi ?e \<le> ?q" and hi: "?q < 2 powi (?e + 1)"
    by (rule binade_bounds [OF q(1)])+
  have e0: "0 \<le> ?e"
  proof (rule ccontr)
    assume "\<not> 0 \<le> ?e"
    then have "?e + 1 \<le> 0" by simp
    then have "(2::rat) powi (?e + 1) \<le> 2 powi 0" by (intro power_int_increasing) simp_all
    with hi q(2) show False by simp
  qed
  have e53: "?e \<le> 53"
  proof (rule ccontr)
    assume "\<not> ?e \<le> 53"
    then have "54 \<le> ?e" by simp
    then have "(2::rat) powi 54 \<le> 2 powi ?e" by (intro power_int_increasing) simp_all
    with lo have "(2::rat) ^ 54 \<le> ?q" by simp
    moreover have "?q \<le> of_int (2 ^ 53)" using assms(2) by (simp only: of_int_le_iff)
    ultimately show False by simp
  qed
  let ?u = "(2::rat) powi (?e - 52)"
  have m: "max ?e (- 1022) = ?e" using e0 by simp
  have "\<exists>m. ?q / ?u = of_int m"
  proof (cases "?e = 53")
    case True
    with lo have "(2::rat) ^ 53 \<le> ?q" by simp
    moreover have "?q \<le> of_int (2 ^ 53)" using assms(2) by (simp only: of_int_le_iff)
    ultimately have "?q = 2 ^ 53" by simp
    with True have "?q / ?u = of_int (2 ^ 52)" by simp
    then show ?thesis by blast
  next
    case False
    with e53 have le: "?e \<le> 52" by simp
    have "(2::rat) powi (?e - 52) = 1 / 2 ^ nat (52 - ?e)"
    proof (cases "?e = 52")
      case True
      then show ?thesis by simp
    next
      case False
      with le have "?e - 52 < 0" by simp
      moreover have "nat (- (?e - 52)) = nat (52 - ?e)" by simp
      ultimately show ?thesis by (simp add: power_int_def field_simps)
    qed
    then have "?q / ?u = of_int (k * 2 ^ nat (52 - ?e))" by simp
    then show ?thesis by blast
  qed
  then obtain m where mm: "?q / ?u = of_int m" by blast
  have u: "?u \<noteq> 0" by simp
  have "f64_nearest ?q = of_int (round_half_even (?q / ?u)) * ?u"
    using q(1) m by (simp add: f64_nearest_def Let_def)
  also have "\<dots> = (?q / ?u) * ?u" by (simp only: mm round_half_even_of_int)
  also have "\<dots> = ?q" using u by simp
  finally show ?thesis .
qed

lemma f64_nearest_one: "f64_nearest 1 = 1"
  using f64_nearest_of_int [of 1] by simp

lemma f64_nearest_zero: "f64_nearest 0 = 0"
  by (simp add: f64_nearest_def)

lemma round_f64_unit:
  assumes "0 \<le> q" and "q \<le> 1"
  shows "round_f64 q = Finite (f64_nearest q)"
    and "0 \<le> f64_nearest q" and "f64_nearest q \<le> 1"
proof -
  have "q < f64_overflow" using assms(2) by (simp add: f64_overflow_def)
  moreover have "\<not> q \<le> - f64_overflow" using assms(1) by (simp add: f64_overflow_def)
  ultimately show "round_f64 q = Finite (f64_nearest q)"
    using assms(1) by (simp add: round_f64_def)
  show "0 \<le> f64_nearest q" by (rule f64_nearest_nonneg)
  from f64_nearest_mono [OF assms(2)] show "f64_nearest q \<le> 1"
    by (simp add: f64_nearest_one)
qed


lemma f64_of_int_exact:
  assumes "\<bar>k\<bar> \<le> 2 ^ 53"
  shows "f64_of_int k = of_int k"
proof (cases "0 \<le> k")
  case True
  with assms f64_nearest_of_int [of k] show ?thesis by (simp add: f64_of_int_def)
next
  case False
  with assms f64_nearest_of_int [of "- k"] show ?thesis by (simp add: f64_of_int_def)
qed

lemma f64_of_int_nat: "f64_of_int (int c) = f64_nearest (of_nat c)"
  by (simp add: f64_of_int_def)

lemma f64_of_int_mono:
  assumes "0 \<le> a" and "a \<le> b"
  shows "f64_of_int a \<le> f64_of_int b"
proof -
  from assms have "(of_int a :: rat) \<le> of_int b" by simp
  from f64_nearest_mono [OF this] assms show ?thesis by (simp add: f64_of_int_def)
qed

lemma f64_of_int_nonneg: "0 \<le> k \<Longrightarrow> 0 \<le> f64_of_int k"
  by (simp add: f64_of_int_def f64_nearest_nonneg)

lemma f64_of_int_ge_one:
  assumes "1 \<le> k"
  shows "1 \<le> f64_of_int k"
proof -
  have "f64_of_int 1 \<le> f64_of_int k" using assms by (intro f64_of_int_mono) simp_all
  moreover have "f64_of_int 1 = 1" using f64_of_int_exact [of 1] by simp
  ultimately show ?thesis by simp
qed

lemma f64_of_int_eq_zero: "f64_of_int (int c) = 0 \<longleftrightarrow> c = 0"
proof
  assume z: "f64_of_int (int c) = 0"
  show "c = 0"
  proof (rule ccontr)
    assume "c \<noteq> 0"
    then have "1 \<le> int c" by simp
    from f64_of_int_ge_one [OF this] z show False by simp
  qed
next
  assume "c = 0"
  then show "f64_of_int (int c) = 0" by (simp add: f64_of_int_def f64_nearest_def)
qed

lemma py_float_finite:
  "\<bar>of_int n\<bar> < f64_overflow \<Longrightarrow> py_float n = Inr (f64_of_int n)"
  by (simp add: py_float_def)

lemma py_float_overflow:
  "f64_overflow \<le> \<bar>of_int n\<bar> \<Longrightarrow> py_float n = Inl OverflowError"
  by (simp add: py_float_def)

lemma small_below_overflow:
  assumes "\<bar>k\<bar> \<le> 2 ^ 53"
  shows "\<bar>of_int k :: rat\<bar> < f64_overflow"
proof -
  have "\<bar>of_int k :: rat\<bar> = of_int \<bar>k\<bar>" by simp
  also have "\<dots> \<le> of_int (2 ^ 53)" using assms by (simp only: of_int_le_iff)
  also have "\<dots> < f64_overflow" by (simp add: f64_overflow_def)
  finally show ?thesis .
qed

lemma py_float_exact:
  assumes "\<bar>n\<bar> \<le> 2 ^ 53"
  shows "py_float n = Inr (of_int n)"
  using py_float_finite [OF small_below_overflow [OF assms]] f64_of_int_exact [OF assms]
  by simp

lemma true_divide_zero: "true_divide c 0 = (if c = 0 then NaN else Inf)"
  by (simp add: true_divide_def Let_def f64_of_int_eq_zero)

lemma true_divide_unit_range:
  assumes "0 < d" and "f64_of_int (int c) \<le> d"
  shows "true_divide c d = Finite (f64_nearest (f64_of_int (int c) / d))"
    and "0 \<le> f64_nearest (f64_of_int (int c) / d)"
    and "f64_nearest (f64_of_int (int c) / d) \<le> 1"
proof -
  let ?x = "f64_of_int (int c)"
  have x: "0 \<le> ?x" by (rule f64_of_int_nonneg) simp
  with assms have q: "0 \<le> ?x / d" "?x / d \<le> 1" by simp_all
  from round_f64_unit(1) [OF q] assms(1)
  show "true_divide c d = Finite (f64_nearest (?x / d))"
    by (simp add: true_divide_def Let_def)
  show "0 \<le> f64_nearest (?x / d)" by (rule round_f64_unit(2) [OF q])
  show "f64_nearest (?x / d) \<le> 1" by (rule round_f64_unit(3) [OF q])
qed

lemma true_divide_exact_unit:
  assumes "int c \<le> 2 ^ 53" and "0 < d" and "of_nat c \<le> d"
  shows "true_divide c d = Finite (f64_nearest (of_nat c / d))"
proof -
  have x: "f64_of_int (int c) = of_nat c"
    using f64_of_int_exact [of "int c"] assms(1) by simp
  with assms(3) have "f64_of_int (int c) \<le> d" by simp
  from true_divide_unit_range(1) [OF assms(2) this] x show ?thesis by simp
qed

lemma true_divide_mono:
  assumes "a \<le> b" and "0 < d"
  shows "f64_nearest (f64_of_int (int a) / d) \<le> f64_nearest (f64_of_int (int b) / d)"
proof -
  have "f64_of_int (int a) \<le> f64_of_int (int b)"
    using assms(1) by (intro f64_of_int_mono) simp_all
  with assms(2) have "f64_of_int (int a) / d \<le> f64_of_int (int b) / d"
    by (simp add: divide_right_mono)
  then show ?thesis by (rule f64_nearest_mono)
qed

section \<open>What \<open>prepare_sequences\<close> computes\<close>

lemma window_rows_uniform:
  "\<forall>r\<in>set (map (window_codes W ns) [0 ..< length ns - W]). length r = W"
  by (auto simp: length_window_codes)

lemma reshape_windows:
  "np_reshape (map (window_codes W ns) [0 ..< length ns - W]) [length ns - W, W, 1] =
     Inr \<lparr>shape = [length ns - W, W, 1],
          data = concat (map (window_codes W ns) [0 ..< length ns - W])\<rparr>"
  using np_reshape_uniform [OF window_rows_uniform, of W ns] by simp

lemma tensors_long:
  assumes "W < length ns" and "py_float n = Inr d"
  shows "tensors W \<lparr>notes_list = ns,
             input_sequences = map (window_codes W ns) [0 ..< length ns - W],
             output_sequence = map (target_code W ns) [0 ..< length ns - W]\<rparr> n =
     Inr (\<lparr>shape = [length ns - W, W, 1],
           data = map (\<lambda>c. true_divide c d)
                    (concat (map (window_codes W ns) [0 ..< length ns - W]))\<rparr>,
          \<lparr>shape = [length ns - W, Max (set (map (target_code W ns) [0 ..< length ns - W])) + 1],
           data = concat (map (one_hot (Max (set (map (target_code W ns) [0 ..< length ns - W])) + 1))
                    (map (target_code W ns) [0 ..< length ns - W]))\<rparr>)"
proof -
  let ?y = "map (target_code W ns) [0 ..< length ns - W]"
  have "?y \<noteq> []" using assms(1) by simp
  from to_categorical_nonempty [OF this] reshape_windows [of W ns] assms(2) show ?thesis
    by (simp add: tensors_def np_divide_def)
qed

lemma tensors_overflow:
  assumes "py_float n = Inl e"
  shows "tensors W \<lparr>notes_list = ns,
             input_sequences = map (window_codes W ns) [0 ..< length ns - W],
             output_sequence = map (target_code W ns) [0 ..< length ns - W]\<rparr> n = Inl e"
  using reshape_windows [of W ns] assms by (simp add: tensors_def)

lemma prepare_sequences_with_long:
  assumes "W < length ns" and "py_float n = Inr d"
  shows "prepare_sequences_with W ns n =
     (Inr (\<lparr>shape = [length ns - W, W, 1],
           data = map (\<lambda>c. true_divide c d)
                    (concat (map (window_codes W ns) [0 ..< length ns - W]))\<rparr>,
          \<lparr>shape = [length ns - W, Max (set (map (target_code W ns) [0 ..< length ns - W])) + 1],
           data = concat (map (one_hot (Max (set (map (target_code W ns) [0 ..< length ns - W])) + 1))
                    (map (target_code W ns) [0 ..< length ns - W]))\<rparr>),
      \<lparr>notes_list = ns,
        input_sequences = map (window_codes W ns) [0 ..< length ns - W],
        output_sequence = map (target_code W ns) [0 ..< length ns - W]\<rparr>)"
  by (simp add: prepare_sequences_with_def windowing_eq tensors_long [OF assms])

lemma prepare_sequences_with_overflow:
  assumes "py_float n = Inl e"
  shows "fst (prepare_sequences_with W ns n) = Inl e"
  by (simp add: prepare_sequences_with_def windowing_eq tensors_overflow [OF assms])

lemma prepare_sequences_with_short:
  assumes "length ns \<le> W" and "py_float n = Inr d"
  shows "prepare_sequences_with W ns n =
     (Inl ValueError, \<lparr>notes_list = ns, input_sequences = [], output_sequence = []\<rparr>)"
  using assms
  by (simp add: prepare_sequences_with_def windowing_eq tensors_def np_reshape_def
      to_categorical_empty)

lemma target_tensor_of_targets:
  assumes "W < length ns"
  shows "to_categorical (map (target_code W ns) [0 ..< length ns - W]) =
     Inr \<lparr>shape = [length ns - W, Max (set (map (target_code W ns) [0 ..< length ns - W])) + 1],
          data = concat (map (one_hot (Max (set (map (target_code W ns) [0 ..< length ns - W])) + 1))
                    (map (target_code W ns) [0 ..< length ns - W]))\<rparr>"
proof -
  have "map (target_code W ns) [0 ..< length ns - W] \<noteq> []" using assms by simp
  from to_categorical_nonempty [OF this] show ?thesis by simp
qed

lemma prepare_sequences_returns_target:
  assumes "prepare_sequences_with W ns n = (Inr (X, Y), s)"
  shows "to_categorical (output_sequence s) = Inr Y"
  using assms
  by (auto simp: prepare_sequences_with_def tensors_def Let_def
      split: prod.splits option.splits sum.splits)

lemma target_code_less:
  "i + W < length ns \<Longrightarrow> target_code W ns i < card (set ns)"
proof -
  assume "i + W < length ns"
  then have "ns ! (i + W) \<in> set ns" by simp
  from vocabulary_Some [OF this] show ?thesis by (auto simp: target_code_def)
qed

lemma window_code_less:
  assumes "i + W \<le> length ns" and "j < W"
  shows "window_codes W ns i ! j < card (set ns)"
proof -
  from assms have "ns ! (i + j) \<in> set ns" by simp
  from vocabulary_Some [OF this] obtain k where "k < card (set ns)" "vocabulary ns (ns ! (i + j)) = Some k"
    by blast
  with window_codes_nth [OF assms] show ?thesis by simp
qed

lemma Max_targets_less:
  assumes "W < length ns"
  shows "Max (set (map (target_code W ns) [0 ..< length ns - W])) < card (set ns)"
proof -
  have "set (map (target_code W ns) [0 ..< length ns - W]) \<noteq> {}" using assms by simp
  moreover have "\<forall>c\<in>set (map (target_code W ns) [0 ..< length ns - W]). c < card (set ns)"
    by (auto simp: target_code_less)
  ultimately show ?thesis by simp
qed

section \<open>Claims about the sequence encoder\<close>

text \<open>
  C1. For every corpus \<open>C\<close> of more than 100 tokens, the loop of \<open>prepare_sequences\<close>
  (window length 100) ends without an exception and has built exactly \<open>len(C) - 100\<close>
  examples, which are the examples the returned tensors are made of. For every offset
  \<open>i\<close> from 0 to \<open>len(C) - 101\<close>, the input window of example \<open>i\<close> has length 100
  and holds the vocabulary codes of \<open>C[i]\<close>, ..., \<open>C[i + 99]\<close> in this order, and its
  target is the vocabulary code of \<open>C[i + 100]\<close>.
\<close>

theorem C1_examples:
  assumes "100 < length C"
  shows "\<exists>s. training_examples C = (None, s)
     \<and> prepare_sequences C n = tensors sequence_length s n
     \<and> length (input_sequences s) = length C - 100
     \<and> length (output_sequence s) = length C - 100
     \<and> (\<forall>i < length C - 100.
          length (input_sequences s ! i) = 100
        \<and> map Some (input_sequences s ! i) = map (vocabulary C) (py_slice C i (i + 100))
        \<and> (\<forall>j < 100. Some (input_sequences s ! i ! j) = vocabulary C (C ! (i + j)))
        \<and> Some (output_sequence s ! i) = vocabulary C (C ! (i + 100)))"
proof -
  let ?s = "\<lparr>notes_list = C,
             input_sequences = map (window_codes 100 C) [0 ..< length C - 100],
             output_sequence = map (target_code 100 C) [0 ..< length C - 100]\<rparr>"
  have a: "training_examples C = (None, ?s)"
    by (simp add: training_examples_def sequence_length_def windowing_eq)
  have b: "prepare_sequences C n = tensors sequence_length ?s n"
    by (simp add: prepare_sequences_def prepare_sequences_with_def sequence_length_def windowing_eq)
  have c: "\<forall>i < length C - 100.
          length (input_sequences ?s ! i) = 100
        \<and> map Some (input_sequences ?s ! i) = map (vocabulary C) (py_slice C i (i + 100))
        \<and> (\<forall>j < 100. Some (input_sequences ?s ! i ! j) = vocabulary C (C ! (i + j)))
        \<and> Some (output_sequence ?s ! i) = vocabulary C (C ! (i + 100))"
  proof (intro allI impI conjI)
    fix i assume i: "i < length C - 100"
    then have le: "i + 100 \<le> length C" and lt: "i + 100 < length C" by simp_all
    show "length (input_sequences ?s ! i) = 100"
      using i length_window_codes [OF le] by simp
    have "map Some (window_codes 100 C i) = map (vocabulary C) (py_slice C i (i + 100))"
    proof (rule nth_equalityI)
      show "length (map Some (window_codes 100 C i)) = length (map (vocabulary C) (py_slice C i (i + 100)))"
        by (simp add: window_codes_def)
    next
      fix j assume "j < length (map Some (window_codes 100 C i))"
      then have j: "j < 100" using length_window_codes [OF le] by simp
      then have "py_slice C i (i + 100) ! j = C ! (i + j)"
        using le by (simp add: py_slice_def)
      moreover have "length (py_slice C i (i + 100)) = 100"
        using le by (simp add: py_slice_def)
      ultimately show "map Some (window_codes 100 C i) ! j = map (vocabulary C) (py_slice C i (i + 100)) ! j"
        using window_codes_nth [OF le j] j length_window_codes [OF le] by simp
    qed
    then show "map Some (input_sequences ?s ! i) = map (vocabulary C) (py_slice C i (i + 100))"
      using i by simp
    show "Some (output_sequence ?s ! i) = vocabulary C (C ! (i + 100))"
      using i target_code_Some [OF lt] by simp
  next
    fix i j assume i: "i < length C - 100" and j: "j < (100::nat)"
    then have le: "i + 100 \<le> length C" by simp
    show "Some (input_sequences ?s ! i ! j) = vocabulary C (C ! (i + j))"
      using i window_codes_nth [OF le j] by simp
  qed
  show ?thesis
    apply (rule exI [of _ ?s])
    using a b c by simp
qed

text \<open>The theorem at the corpus of 101 tokens: one example, the window \<open>B A ... A\<close>
  with target \<open>A\<close>.\<close>

theorem C1_examples_witness:
  "100 < length late_token_corpus
   \<and> training_examples late_token_corpus =
       (None, \<lparr>notes_list = late_token_corpus,
               input_sequences = [1 # replicate 99 0], output_sequence = [0]\<rparr>)
   \<and> length (input_sequences (snd (training_examples late_token_corpus))) = length late_token_corpus - 100
   \<and> Some (output_sequence (snd (training_examples late_token_corpus)) ! 0)
       = vocabulary late_token_corpus (late_token_corpus ! (0 + 100))"
proof -
  have h: "100 < length late_token_corpus" by (simp add: late_token_corpus_def)
  have e: "training_examples late_token_corpus =
       (None, \<lparr>notes_list = late_token_corpus,
               input_sequences = [1 # replicate 99 0], output_sequence = [0]\<rparr>)"
    by code_simp
  from C1_examples [OF h, of 1] obtain s where
    s: "training_examples late_token_corpus = (None, s)"
       "length (input_sequences s) = length late_token_corpus - 100"
       "\<forall>i < length late_token_corpus - 100.
           Some (output_sequence s ! i) = vocabulary late_token_corpus (late_token_corpus ! (i + 100))"
    by blast
  from s(3) h have "Some (output_sequence s ! 0) = vocabulary late_token_corpus (late_token_corpus ! (0 + 100))"
    by simp
  with s(1,2) h e show ?thesis by simp
qed

text \<open>
  C2. For every corpus \<open>C\<close>, the vocabulary built by \<open>prepare_sequences\<close> is a bijection
  from the distinct tokens of \<open>C\<close> onto the codes \<open>0, ..., V - 1\<close>, where \<open>V\<close> is the
  number of distinct tokens of \<open>C\<close>: its keys are exactly the tokens of \<open>C\<close>, the token
  at position \<open>k\<close> of the lexicographically sorted list of distinct tokens has code
  \<open>k\<close>, two distinct tokens never have the same code, and a smaller token has a
  smaller code.
\<close>

theorem C2_vocabulary_bijection:
  "bij_betw (\<lambda>t. the (vocabulary C t)) (set C) {0 ..< card (set C)}
   \<and> dom (vocabulary C) = set C
   \<and> sorted_wrt (<) (pitch_names_of C)
   \<and> set (pitch_names_of C) = set C
   \<and> length (pitch_names_of C) = card (set C)
   \<and> (\<forall>k < card (set C). vocabulary C (pitch_names_of C ! k) = Some k)
   \<and> (\<forall>t \<in> set C. \<forall>u \<in> set C. t \<noteq> u \<longrightarrow> vocabulary C t \<noteq> vocabulary C u)
   \<and> (\<forall>t \<in> set C. \<forall>u \<in> set C. (t < u) = (the (vocabulary C t) < the (vocabulary C u)))"
proof -
  let ?names = "pitch_names_of C"
  let ?V = "card (set C)"
  have nth: "\<And>k. k < ?V \<Longrightarrow> vocabulary C (?names ! k) = Some k"
    by (rule vocabulary_nth)
  have inj: "\<And>t u. t \<in> set C \<Longrightarrow> u \<in> set C \<Longrightarrow> vocabulary C t = vocabulary C u \<Longrightarrow> t = u"
  proof -
    fix t u assume "t \<in> set C" "u \<in> set C" and eq: "vocabulary C t = vocabulary C u"
    from vocabulary_Some [OF \<open>t \<in> set C\<close>] obtain k where k: "vocabulary C t = Some k" "?names ! k = t" by blast
    from vocabulary_Some [OF \<open>u \<in> set C\<close>] obtain l where l: "vocabulary C u = Some l" "?names ! l = u" by blast
    from k l eq show "t = u" by simp
  qed
  have mono: "\<And>t u. t \<in> set C \<Longrightarrow> u \<in> set C \<Longrightarrow> (t < u) = (the (vocabulary C t) < the (vocabulary C u))"
  proof -
    fix t u assume "t \<in> set C" "u \<in> set C"
    from vocabulary_Some [OF \<open>t \<in> set C\<close>] obtain k where
      k: "k < ?V" "vocabulary C t = Some k" "?names ! k = t" by blast
    from vocabulary_Some [OF \<open>u \<in> set C\<close>] obtain l where
      l: "l < ?V" "vocabulary C u = Some l" "?names ! l = u" by blast
    have len: "k < length ?names" "l < length ?names" using k l by (simp_all add: pitch_names_length)
    have "(?names ! k < ?names ! l) = (k < l)"
    proof
      assume less: "?names ! k < ?names ! l"
      show "k < l"
      proof (rule ccontr)
        assume "\<not> k < l"
        then have "l \<le> k" by simp
        then have "?names ! l \<le> ?names ! k"
          using pitch_names_sorted [of C] len
          by (cases "l = k") (auto simp: sorted_wrt_iff_nth_less le_less)
        with less show False by simp
      qed
    next
      assume "k < l"
      then show "?names ! k < ?names ! l"
        using pitch_names_sorted [of C] len by (simp add: sorted_wrt_iff_nth_less)
    qed
    with k l show "(t < u) = (the (vocabulary C t) < the (vocabulary C u))" by simp
  qed
  have bij: "bij_betw (\<lambda>t. the (vocabulary C t)) (set C) {0 ..< ?V}"
    unfolding bij_betw_def
  proof
    show "inj_on (\<lambda>t. the (vocabulary C t)) (set C)"
    proof (rule inj_onI)
      fix t u assume tu: "t \<in> set C" "u \<in> set C" and eq: "the (vocabulary C t) = the (vocabulary C u)"
      from vocabulary_Some [OF tu(1)] vocabulary_Some [OF tu(2)] eq
      have "vocabulary C t = vocabulary C u" by auto
      with tu show "t = u" by (rule inj)
    qed
  next
    show "(\<lambda>t. the (vocabulary C t)) ` set C = {0 ..< ?V}"
    proof
      show "(\<lambda>t. the (vocabulary C t)) ` set C \<subseteq> {0 ..< ?V}"
        using vocabulary_Some by fastforce
    next
      show "{0 ..< ?V} \<subseteq> (\<lambda>t. the (vocabulary C t)) ` set C"
      proof
        fix k assume "k \<in> {0 ..< ?V}"
        then have k: "k < ?V" by simp
        then have "?names ! k \<in> set ?names" by (simp add: pitch_names_length)
        then have "?names ! k \<in> set C" by (simp add: pitch_names_set)
        moreover have "the (vocabulary C (?names ! k)) = k" using nth [OF k] by simp
        ultimately show "k \<in> (\<lambda>t. the (vocabulary C t)) ` set C" by force
      qed
    qed
  qed
  from bij nth inj mono show ?thesis
    by (auto simp: vocabulary_dom pitch_names_sorted pitch_names_set pitch_names_length)
qed

text \<open>The theorem at the scenario corpus \<open>C4 D4 E4 C4\<close>.\<close>

theorem C2_vocabulary_bijection_witness:
  "''D4'' \<in> set scenario_corpus \<and> ''E4'' \<in> set scenario_corpus \<and> ''D4'' \<noteq> ''E4''
   \<and> vocabulary scenario_corpus ''D4'' \<noteq> vocabulary scenario_corpus ''E4''
   \<and> (1::nat) < card (set scenario_corpus)
   \<and> vocabulary scenario_corpus (pitch_names_of scenario_corpus ! 1) = Some 1
   \<and> dom (vocabulary scenario_corpus) = set scenario_corpus"
proof -
  have m: "''D4'' \<in> set scenario_corpus" "''E4'' \<in> set scenario_corpus" "''D4'' \<noteq> ''E4''"
    by (simp_all add: scenario_corpus_def)
  have c: "card (set scenario_corpus) = 3" by code_simp
  from C2_vocabulary_bijection [of scenario_corpus] m c show ?thesis by auto
qed

text \<open>
  The tensors of the corpus \<open>B A ... A\<close> of 101 tokens, and the quotients they hold.
\<close>

lemma late_token_corpus_length: "length late_token_corpus = 101"
  by (simp add: late_token_corpus_def)

lemma late_token_corpus_windows:
  "map (window_codes 100 late_token_corpus) [0 ..< length late_token_corpus - 100]
     = [1 # replicate 99 0]"
  by code_simp

lemma late_token_corpus_targets:
  "map (target_code 100 late_token_corpus) [0 ..< length late_token_corpus - 100] = [0]"
  by code_simp

lemma late_token_corpus_tensors:
  assumes "py_float n = Inr d"
  shows "prepare_sequences late_token_corpus n =
     Inr (\<lparr>shape = [1, 100, 1], data = true_divide 1 d # replicate 99 (true_divide 0 d)\<rparr>,
          \<lparr>shape = [1, 1], data = [1]\<rparr>)"
proof -
  have l: "100 < length late_token_corpus" by (simp add: late_token_corpus_length)
  have o: "one_hot (Suc 0) 0 = [1]" by (simp add: one_hot_def)
  from prepare_sequences_with_long [OF l assms] show ?thesis
    unfolding late_token_corpus_windows late_token_corpus_targets
    by (simp add: prepare_sequences_def sequence_length_def late_token_corpus_length o)
qed

lemma true_divide_0: "0 < d \<Longrightarrow> true_divide 0 d = Finite 0"
  using true_divide_exact_unit [of 0 d] by (simp add: f64_nearest_zero)

lemma true_divide_1_1: "true_divide (Suc 0) 1 = Finite 1"
  using true_divide_exact_unit [of 1 1] by (simp add: f64_nearest_one)

lemma f64_nearest_half: "f64_nearest (1 / 2) = 1 / 2"
  by code_simp

lemma true_divide_1_2: "true_divide (Suc 0) 2 = Finite (1 / 2)"
  using true_divide_exact_unit [of 1 2] by (simp add: f64_nearest_half)

lemma late_token_corpus_tensors_2:
  "prepare_sequences late_token_corpus 2 =
     Inr (\<lparr>shape = [1, 100, 1], data = Finite (1 / 2) # replicate 99 (Finite 0)\<rparr>,
          \<lparr>shape = [1, 1], data = [1]\<rparr>)"
  using late_token_corpus_tensors [of 2 2] py_float_exact [of 2]
  by (simp add: true_divide_0 true_divide_1_2)

lemma late_token_corpus_tensors_1:
  "prepare_sequences late_token_corpus 1 =
     Inr (\<lparr>shape = [1, 100, 1], data = Finite 1 # replicate 99 (Finite 0)\<rparr>,
          \<lparr>shape = [1, 1], data = [1]\<rparr>)"
  using late_token_corpus_tensors [of 1 1] py_float_exact [of 1]
  by (simp add: true_divide_0 true_divide_1_1)

text \<open>
  C3. A corpus \<open>C\<close> of at most 100 tokens (the empty corpus included): the loop
  produces zero examples and the reshape to \<open>(0, 100, 1)\<close> succeeds, but
  \<open>prepare_sequences\<close> raises for every class count instead of returning empty
  tensors: \<open>ValueError\<close> from the one-hot encoding of the empty target list (the
  maximum of a zero-size array), or, for a class count beyond the \<open>float64\<close> range,
  \<open>OverflowError\<close> from \<open>float\<close> before that.
\<close>

theorem C3_short_corpus_raises:
  assumes "length C \<le> 100"
  shows "training_examples C = (None, \<lparr>notes_list = C, input_sequences = [], output_sequence = []\<rparr>)
     \<and> np_reshape ([] :: nat list list) [0, 100, 1] = Inr \<lparr>shape = [0, 100, 1], data = []\<rparr>
     \<and> to_categorical [] = Inl ValueError
     \<and> (\<exists>e. prepare_sequences C n = Inl e)
     \<and> (\<bar>of_int n\<bar> < f64_overflow \<longrightarrow> prepare_sequences C n = Inl ValueError)
     \<and> (f64_overflow \<le> \<bar>of_int n\<bar> \<longrightarrow> prepare_sequences C n = Inl OverflowError)"
proof -
  have a: "training_examples C = (None, \<lparr>notes_list = C, input_sequences = [], output_sequence = []\<rparr>)"
    using assms by (simp add: training_examples_def sequence_length_def windowing_eq)
  have b: "np_reshape ([] :: nat list list) [0, 100, 1] = Inr \<lparr>shape = [0, 100, 1], data = []\<rparr>"
    by (simp add: np_reshape_def)
  have v: "\<bar>of_int n\<bar> < f64_overflow \<longrightarrow> prepare_sequences C n = Inl ValueError"
  proof
    assume "\<bar>of_int n\<bar> < f64_overflow"
    then have "py_float n = Inr (f64_of_int n)" by (rule py_float_finite)
    from prepare_sequences_with_short [OF _ this, of C 100] assms
    show "prepare_sequences C n = Inl ValueError"
      by (simp add: prepare_sequences_def sequence_length_def)
  qed
  have o: "f64_overflow \<le> \<bar>of_int n\<bar> \<longrightarrow> prepare_sequences C n = Inl OverflowError"
  proof
    assume "f64_overflow \<le> \<bar>of_int n\<bar>"
    then have "py_float n = Inl OverflowError" by (rule py_float_overflow)
    from prepare_sequences_with_overflow [OF this]
    show "prepare_sequences C n = Inl OverflowError"
      by (simp add: prepare_sequences_def)
  qed
  have e: "\<exists>e. prepare_sequences C n = Inl e"
  proof (cases "\<bar>of_int n\<bar> < f64_overflow")
    case True
    with v show ?thesis by blast
  next
    case False
    then have "f64_overflow \<le> \<bar>of_int n\<bar>" by simp
    with o show ?thesis by blast
  qed
  from a b to_categorical_empty e v o show ?thesis by (intro conjI)
qed

text \<open>
  The theorem at the empty corpus and at the four-token corpus of the scenario.
\<close>

theorem C3_short_corpus_raises_witness:
  "length ([] :: token list) \<le> 100 \<and> prepare_sequences [] 1 = Inl ValueError
   \<and> length scenario_corpus \<le> 100 \<and> prepare_sequences scenario_corpus 3 = Inl ValueError"
proof -
  have l: "length ([] :: token list) \<le> 100" "length scenario_corpus \<le> 100"
    by (simp_all add: scenario_corpus_def)
  have s: "\<bar>of_int 1 :: rat\<bar> < f64_overflow" "\<bar>of_int 3 :: rat\<bar> < f64_overflow"
    by (rule small_below_overflow, simp)+
  from C3_short_corpus_raises [OF l(1), of 1] s(1)
  have a: "prepare_sequences [] 1 = Inl ValueError" by blast
  from C3_short_corpus_raises [OF l(2), of 3] s(2)
  have b: "prepare_sequences scenario_corpus 3 = Inl ValueError" by blast
  from l a b show ?thesis by (intro conjI)
qed

text \<open>
  C4, as the code has it. For every corpus \<open>C\<close> of more than 100 tokens, the target
  tensor depends on the corpus alone, and \<open>prepare_sequences\<close> returns it for every
  class count that \<open>float\<close> accepts (for a class count beyond the \<open>float64\<close> range
  \<open>float\<close> raises \<open>OverflowError\<close>). It is a matrix with one row per example, in
  example order. Its width is one more than the largest target code, which is at most
  the vocabulary size \<open>V\<close>. Row \<open>i\<close> is the one-hot vector of the code of
  \<open>C[i + 100]\<close>: it sums to exactly 1, has exactly one entry equal to 1, at the column
  of that code, and zeros elsewhere.
\<close>

theorem C4_target_tensor_one_hot:
  assumes "100 < length C"
  shows "\<exists>Y s. training_examples C = (None, s)
     \<and> to_categorical (output_sequence s) = Inr Y
     \<and> (\<bar>of_int n\<bar> < f64_overflow \<longrightarrow> (\<exists>X. prepare_sequences C n = Inr (X, Y)))
     \<and> (f64_overflow \<le> \<bar>of_int n\<bar> \<longrightarrow> prepare_sequences C n = Inl OverflowError)
     \<and> shape Y = [length C - 100, Max (set (output_sequence s)) + 1]
     \<and> Max (set (output_sequence s)) + 1 \<le> card (set C)
     \<and> (\<forall>i < length C - 100.
          Some (output_sequence s ! i) = vocabulary C (C ! (i + 100))
        \<and> row2 Y i = one_hot (Max (set (output_sequence s)) + 1) (output_sequence s ! i)
        \<and> length (row2 Y i) = Max (set (output_sequence s)) + 1
        \<and> sum_list (row2 Y i) = 1
        \<and> length (filter (\<lambda>x. x = 1) (row2 Y i)) = 1
        \<and> (\<forall>j < Max (set (output_sequence s)) + 1.
              row2 Y i ! j = (if j = output_sequence s ! i then 1 else 0)))"
proof -
  let ?y = "map (target_code 100 C) [0 ..< length C - 100]"
  let ?m = "Max (set ?y)"
  let ?s = "\<lparr>notes_list = C,
             input_sequences = map (window_codes 100 C) [0 ..< length C - 100],
             output_sequence = ?y\<rparr>"
  let ?Y = "\<lparr>shape = [length C - 100, ?m + 1], data = concat (map (one_hot (?m + 1)) ?y)\<rparr>"
  have a: "training_examples C = (None, ?s)"
    by (simp add: training_examples_def sequence_length_def windowing_eq)
  have t: "to_categorical (output_sequence ?s) = Inr ?Y"
    using target_tensor_of_targets [OF assms] by simp
  have b: "\<bar>of_int n\<bar> < f64_overflow \<longrightarrow> (\<exists>X. prepare_sequences C n = Inr (X, ?Y))"
  proof
    assume "\<bar>of_int n\<bar> < f64_overflow"
    then have "py_float n = Inr (f64_of_int n)" by (rule py_float_finite)
    from prepare_sequences_with_long [OF assms this]
    show "\<exists>X. prepare_sequences C n = Inr (X, ?Y)"
      by (simp add: prepare_sequences_def sequence_length_def)
  qed
  have o: "f64_overflow \<le> \<bar>of_int n\<bar> \<longrightarrow> prepare_sequences C n = Inl OverflowError"
  proof
    assume "f64_overflow \<le> \<bar>of_int n\<bar>"
    then have "py_float n = Inl OverflowError" by (rule py_float_overflow)
    from prepare_sequences_with_overflow [OF this]
    show "prepare_sequences C n = Inl OverflowError"
      by (simp add: prepare_sequences_def)
  qed
  have m: "?m + 1 \<le> card (set C)"
    using Max_targets_less [OF assms] by simp
  have rows: "\<forall>r\<in>set (map (one_hot (?m + 1)) ?y). length r = ?m + 1"
    by (simp add: length_one_hot)
  have c: "\<forall>i < length C - 100.
          Some (?y ! i) = vocabulary C (C ! (i + 100))
        \<and> row2 ?Y i = one_hot (?m + 1) (?y ! i)
        \<and> length (row2 ?Y i) = ?m + 1
        \<and> sum_list (row2 ?Y i) = 1
        \<and> length (filter (\<lambda>x. x = 1) (row2 ?Y i)) = 1
        \<and> (\<forall>j < ?m + 1. row2 ?Y i ! j = (if j = ?y ! i then 1 else 0))"
  proof (intro allI impI)
    fix i assume i: "i < length C - 100"
    then have lt: "i + 100 < length C" by simp
    have il: "i < length (map (one_hot (?m + 1)) ?y)" using i by simp
    have r: "row2 ?Y i = one_hot (?m + 1) (?y ! i)"
      using concat_uniform_row [OF rows il] i by (simp add: row2_def)
    have "i < length ?y" using i by simp
    then have "?y ! i \<in> set ?y" by (rule nth_mem)
    then have "?y ! i \<le> ?m" by (intro Max_ge) simp_all
    then have le: "?y ! i < ?m + 1" by simp
    have t: "Some (?y ! i) = vocabulary C (C ! (i + 100))"
      using i target_code_Some [OF lt] by simp
    show "Some (?y ! i) = vocabulary C (C ! (i + 100))
        \<and> row2 ?Y i = one_hot (?m + 1) (?y ! i)
        \<and> length (row2 ?Y i) = ?m + 1
        \<and> sum_list (row2 ?Y i) = 1
        \<and> length (filter (\<lambda>x. x = 1) (row2 ?Y i)) = 1
        \<and> (\<forall>j < ?m + 1. row2 ?Y i ! j = (if j = ?y ! i then 1 else 0))"
      unfolding r
      using t sum_list_one_hot [OF le] count_one_hot [OF le]
      by (simp add: length_one_hot one_hot_nth)
  qed
  have os: "output_sequence ?s = ?y" by simp
  have sh: "shape ?Y = [length C - 100, Max (set (output_sequence ?s)) + 1]"
    unfolding os by simp
  have m': "Max (set (output_sequence ?s)) + 1 \<le> card (set C)"
    unfolding os by (rule m)
  have c': "\<forall>i < length C - 100.
          Some (output_sequence ?s ! i) = vocabulary C (C ! (i + 100))
        \<and> row2 ?Y i = one_hot (Max (set (output_sequence ?s)) + 1) (output_sequence ?s ! i)
        \<and> length (row2 ?Y i) = Max (set (output_sequence ?s)) + 1
        \<and> sum_list (row2 ?Y i) = 1
        \<and> length (filter (\<lambda>x. x = 1) (row2 ?Y i)) = 1
        \<and> (\<forall>j < Max (set (output_sequence ?s)) + 1.
              row2 ?Y i ! j = (if j = output_sequence ?s ! i then 1 else 0))"
    unfolding os by (rule c)
  from a t b o sh m' c' show ?thesis by blast
qed

text \<open>
  The theorem at the corpus of 101 tokens \<open>B A ... A\<close>.
\<close>

theorem C4_target_tensor_one_hot_witness:
  "100 < length late_token_corpus
   \<and> prepare_sequences late_token_corpus 2 =
       Inr (\<lparr>shape = [1, 100, 1], data = Finite (1 / 2) # replicate 99 (Finite 0)\<rparr>,
            \<lparr>shape = [1, 1], data = [1]\<rparr>)
   \<and> (\<exists>X Y s. training_examples late_token_corpus = (None, s)
         \<and> prepare_sequences late_token_corpus 2 = Inr (X, Y)
         \<and> shape Y = [length late_token_corpus - 100, Max (set (output_sequence s)) + 1]
         \<and> sum_list (row2 Y 0) = 1
         \<and> length (filter (\<lambda>x. x = 1) (row2 Y 0)) = 1)"
proof -
  have h: "100 < length late_token_corpus" by (simp add: late_token_corpus_def)
  have f: "\<bar>of_int 2 :: rat\<bar> < f64_overflow" by (rule small_below_overflow) simp
  note e = late_token_corpus_tensors_2
  from C4_target_tensor_one_hot [OF h, of 2] obtain Y s where
    ys: "training_examples late_token_corpus = (None, s)"
    "\<bar>of_int 2 :: rat\<bar> < f64_overflow \<longrightarrow> (\<exists>X. prepare_sequences late_token_corpus 2 = Inr (X, Y))"
    "shape Y = [length late_token_corpus - 100, Max (set (output_sequence s)) + 1]"
    "\<forall>i < length late_token_corpus - 100.
        sum_list (row2 Y i) = 1 \<and> length (filter (\<lambda>x. x = 1) (row2 Y i)) = 1"
    by blast
  from ys(2) f obtain X where x: "prepare_sequences late_token_corpus 2 = Inr (X, Y)" by blast
  from h have "0 < length late_token_corpus - 100" by simp
  with ys(4) have r: "sum_list (row2 Y 0) = 1" "length (filter (\<lambda>x. x = 1) (row2 Y 0)) = 1"
    by blast+
  from ys(1) x ys(3) r have "\<exists>X Y s. training_examples late_token_corpus = (None, s)
         \<and> prepare_sequences late_token_corpus 2 = Inr (X, Y)
         \<and> shape Y = [length late_token_corpus - 100, Max (set (output_sequence s)) + 1]
         \<and> sum_list (row2 Y 0) = 1
         \<and> length (filter (\<lambda>x. x = 1) (row2 Y 0)) = 1"
    by blast
  with h e show ?thesis by (intro conjI)
qed

text \<open>
  The width is not always the vocabulary size: the corpus \<open>B A ... A\<close> of 101 tokens
  has two distinct tokens, its only target is \<open>A\<close> with code 0, and the target tensor
  has shape \<open>(1, 1)\<close>, not \<open>(1, 2)\<close>.
\<close>

theorem C4_width_counterexample:
  "100 < length late_token_corpus
   \<and> card (set late_token_corpus) = 2
   \<and> prepare_sequences late_token_corpus 2 =
       Inr (\<lparr>shape = [1, 100, 1], data = Finite (1 / 2) # replicate 99 (Finite 0)\<rparr>,
            \<lparr>shape = [1, 1], data = [1]\<rparr>)
   \<and> shape (snd (projr (prepare_sequences late_token_corpus 2)))
       \<noteq> [length late_token_corpus - 100, card (set late_token_corpus)]"
proof -
  have h: "100 < length late_token_corpus" "length late_token_corpus = 101"
    by (simp_all add: late_token_corpus_def)
  have c: "card (set late_token_corpus) = 2" by code_simp
  note e = late_token_corpus_tensors_2
  from h c e show ?thesis by simp
qed

text \<open>
  One entry of the input tensor: a code below \<open>V\<close> divided by \<open>float(n)\<close>.
\<close>

lemma entry_zero_divisor:
  "true_divide c (f64_of_int 0) = (if c = 0 then NaN else Inf)"
  by (simp add: f64_of_int_def f64_nearest_zero true_divide_zero)

lemma entry_bounded:
  assumes "c < V" and "int V \<le> n"
  shows "\<exists>q b. true_divide c (f64_of_int n) = Finite q
           \<and> true_divide (nat (n - 1)) (f64_of_int n) = Finite b
           \<and> 0 \<le> q \<and> q \<le> b \<and> b \<le> 1"
proof -
  let ?d = "f64_of_int n"
  let ?m = "nat (n - 1)"
  from assms have n: "1 \<le> n" by simp
  then have d: "0 < ?d" using f64_of_int_ge_one [OF n] by simp
  from assms have cm: "c \<le> ?m" by simp
  have m: "f64_of_int (int ?m) \<le> ?d"
    using n by (intro f64_of_int_mono) simp_all
  have ic: "int c \<le> int ?m" using cm by (simp only: of_nat_le_iff)
  have "0 \<le> int c" by simp
  then have "f64_of_int (int c) \<le> f64_of_int (int ?m)"
    using ic by (rule f64_of_int_mono)
  with m have c: "f64_of_int (int c) \<le> ?d" by simp
  note tc = true_divide_unit_range [OF d c]
  note tm = true_divide_unit_range [OF d m]
  from true_divide_mono [OF cm d] tc(1,2) tm(1,3) show ?thesis by blast
qed

lemma entry_exact:
  assumes "c < V" and "int V \<le> n" and "n \<le> 2 ^ 53"
  shows "true_divide c (f64_of_int n) = Finite (f64_nearest (of_nat c / of_int n))"
    and "true_divide (nat (n - 1)) (f64_of_int n)
           = Finite (f64_nearest ((of_int n - 1) / of_int n))"
proof -
  from assms have n: "1 \<le> n" by simp
  with assms(3) have d: "f64_of_int n = of_int n" by (intro f64_of_int_exact) simp
  have p: "(0::rat) < of_int n" using n by simp
  from assms have c: "int c \<le> 2 ^ 53" "(of_nat c :: rat) \<le> of_int n"
    by (simp, metis (no_types) less_imp_le_nat of_int_le_iff of_int_of_nat_eq of_nat_le_iff order_trans)
  from true_divide_exact_unit [OF c(1) p c(2)] d
  show "true_divide c (f64_of_int n) = Finite (f64_nearest (of_nat c / of_int n))" by simp
  let ?m = "nat (n - 1)"
  have mv: "(of_nat ?m :: rat) = of_int n - 1" using n by (simp add: of_nat_nat)
  from assms(3) n have m: "int ?m \<le> 2 ^ 53" "(of_nat ?m :: rat) \<le> of_int n"
    using mv by simp_all
  from true_divide_exact_unit [OF m(1) p m(2)] d mv
  show "true_divide ?m (f64_of_int n) = Finite (f64_nearest ((of_int n - 1) / of_int n))"
    by simp
qed

lemma entry_below_exact_bound:
  assumes "c < V" and "int V \<le> n" and "int V \<le> 2 ^ 53"
  shows "\<exists>q. true_divide c (f64_of_int n) = Finite q \<and> 0 \<le> q
           \<and> q \<le> f64_nearest ((of_int n - 1) / of_int n)"
proof -
  let ?d = "f64_of_int n"
  let ?x = "f64_of_int (int c)"
  from assms have n: "1 \<le> n" by simp
  have np: "(0::rat) < of_int n" using n by simp
  from assms have c53: "int c \<le> 2 ^ 53 - 1" by simp
  then have x: "?x = of_nat c" using f64_of_int_exact [of "int c"] by simp
  have d: "0 < ?d" using f64_of_int_ge_one [OF n] by simp
  have q: "?x / ?d \<le> (of_int n - 1) / of_int n"
  proof (cases "n \<le> 2 ^ 53")
    case True
    with n have "?d = of_int n" by (intro f64_of_int_exact) simp
    moreover have "(of_nat c :: rat) \<le> of_int n - 1"
    proof -
      from assms have "int c \<le> n - 1" by simp
      then have "(of_int (int c) :: rat) \<le> of_int (n - 1)" by (simp only: of_int_le_iff)
      then show ?thesis by simp
    qed
    ultimately show ?thesis using x np by (simp add: divide_right_mono)
  next
    case False
    then have big: "2 ^ 53 \<le> n" by simp
    have "f64_of_int (2 ^ 53) \<le> ?d" using big by (intro f64_of_int_mono) simp_all
    moreover have "f64_of_int (2 ^ 53) = of_int (2 ^ 53)" by (rule f64_of_int_exact) simp
    ultimately have dl: "(2::rat) ^ 53 \<le> ?d" by simp
    have "(of_int (int c) :: rat) \<le> of_int (2 ^ 53 - 1)" using c53 by (simp only: of_int_le_iff)
    then have cl: "(of_nat c :: rat) \<le> 2 ^ 53 - 1" by simp
    have "?x / ?d \<le> ?x / 2 ^ 53"
      using dl x by (intro divide_left_mono) simp_all
    also have "\<dots> \<le> (2 ^ 53 - 1) / 2 ^ 53"
      using cl x by (simp add: divide_right_mono)
    also have "\<dots> = 1 - 1 / 2 ^ 53" by (simp add: field_simps)
    also have "\<dots> \<le> 1 - 1 / of_int n"
    proof -
      have "(of_int (2 ^ 53) :: rat) \<le> of_int n" using big by (simp only: of_int_le_iff)
      then have "(2::rat) ^ 53 \<le> of_int n" by simp
      then have "1 / of_int n \<le> 1 / (2::rat) ^ 53"
        by (intro divide_left_mono) simp_all
      then show ?thesis by simp
    qed
    also have "\<dots> = (of_int n - 1) / of_int n" using np by (simp add: field_simps)
    finally show ?thesis .
  qed
  have "(of_int n - 1) / of_int n \<le> (1::rat)" using np by simp
  with q have "?x / ?d \<le> 1" by simp
  with d have xd: "?x \<le> ?d" by (simp add: pos_divide_le_eq)
  note t = true_divide_unit_range [OF d xd]
  from f64_nearest_mono [OF q] t(1,2) show ?thesis by blast
qed

text \<open>
  C5, as the code has it. Let \<open>C\<close> be a corpus of more than 100 tokens and \<open>n\<close> the
  class count. When \<open>n\<close> is beyond the \<open>float64\<close> range, \<open>float(n)\<close> raises
  \<open>OverflowError\<close>. Otherwise \<open>prepare_sequences\<close> returns an input tensor of shape
  \<open>(len(C) - 100, 100, 1)\<close> whose entry \<open>[i][j][0]\<close> is the \<open>float64\<close> quotient of the
  vocabulary code of \<open>C[i + j]\<close> by \<open>float(n)\<close>: the divisor is the caller's count,
  not the vocabulary size, and for \<open>n = 0\<close> the entry is \<open>nan\<close> or \<open>inf\<close>. When \<open>n\<close>
  is at least the vocabulary size \<open>V\<close>, every entry is finite and lies between 0 and
  the \<open>float64\<close> quotient of \<open>n - 1\<close> by \<open>float(n)\<close>, which is at most 1. It also
  lies below the \<open>float64\<close> value nearest to the exact \<open>(n - 1) / n\<close>, which is what
  Python's \<open>(n - 1) / n\<close> evaluates to, when \<open>V\<close> is at most \<open>2 ^ 53\<close>; and up to
  \<open>n = 2 ^ 53\<close> the entry is the \<open>float64\<close> value nearest to the exact \<open>code / n\<close>.
\<close>

theorem C5_input_tensor_normalised:
  assumes "100 < length C"
  shows "(f64_overflow \<le> \<bar>of_int n\<bar> \<longrightarrow> prepare_sequences C n = Inl OverflowError)
     \<and> (\<bar>of_int n\<bar> < f64_overflow \<longrightarrow>
         (\<exists>X Y. prepare_sequences C n = Inr (X, Y)
           \<and> shape X = [length C - 100, 100, 1]
           \<and> length (data X) = (length C - 100) * 100 * 1
           \<and> (\<forall>i < length C - 100. \<forall>j < 100.
               (\<exists>c < card (set C). vocabulary C (C ! (i + j)) = Some c
                  \<and> item3 X i j 0 = true_divide c (f64_of_int n)
                  \<and> (n = 0 \<longrightarrow> item3 X i j 0 = (if c = 0 then NaN else Inf))
                  \<and> (int (card (set C)) \<le> n \<longrightarrow>
                       (\<exists>q b. item3 X i j 0 = Finite q
                            \<and> true_divide (nat (n - 1)) (f64_of_int n) = Finite b
                            \<and> 0 \<le> q \<and> q \<le> b \<and> b \<le> 1))
                  \<and> (int (card (set C)) \<le> n \<and> int (card (set C)) \<le> 2 ^ 53 \<longrightarrow>
                       (\<exists>q. item3 X i j 0 = Finite q \<and> 0 \<le> q
                            \<and> q \<le> f64_nearest ((of_int n - 1) / of_int n)))
                  \<and> (int (card (set C)) \<le> n \<and> n \<le> 2 ^ 53 \<longrightarrow>
                       item3 X i j 0 = Finite (f64_nearest (of_nat c / of_int n))
                       \<and> true_divide (nat (n - 1)) (f64_of_int n)
                           = Finite (f64_nearest ((of_int n - 1) / of_int n)))))))"
proof (intro conjI impI)
  assume "f64_overflow \<le> \<bar>of_int n\<bar>"
  then have "py_float n = Inl OverflowError" by (rule py_float_overflow)
  from prepare_sequences_with_overflow [OF this]
  show "prepare_sequences C n = Inl OverflowError"
    by (simp add: prepare_sequences_def)
next
  assume "\<bar>of_int n\<bar> < f64_overflow"
  then have fl: "py_float n = Inr (f64_of_int n)" by (rule py_float_finite)
  let ?d = "f64_of_int n"
  let ?rows = "map (window_codes 100 C) [0 ..< length C - 100]"
  let ?y = "map (target_code 100 C) [0 ..< length C - 100]"
  let ?X = "\<lparr>shape = [length C - 100, 100, 1],
           data = map (\<lambda>c. true_divide c ?d) (concat ?rows)\<rparr>"
  let ?Y = "\<lparr>shape = [length C - 100, Max (set ?y) + 1],
           data = concat (map (one_hot (Max (set ?y) + 1)) ?y)\<rparr>"
  have b: "prepare_sequences C n = Inr (?X, ?Y)"
    using prepare_sequences_with_long [OF assms fl]
    by (simp add: prepare_sequences_def sequence_length_def)
  have u: "\<forall>r\<in>set ?rows. length r = 100"
    by (rule window_rows_uniform)
  have len: "length (concat ?rows) = (length C - 100) * 100"
    using length_concat_uniform [OF u] by simp
  have sh: "shape ?X = [length C - 100, 100, 1]" by simp
  have ld: "length (data ?X) = (length C - 100) * 100 * 1" using len by simp
  have c: "\<forall>i < length C - 100. \<forall>j < 100.
          (\<exists>c < card (set C). vocabulary C (C ! (i + j)) = Some c
             \<and> item3 ?X i j 0 = true_divide c ?d
             \<and> (n = 0 \<longrightarrow> item3 ?X i j 0 = (if c = 0 then NaN else Inf))
             \<and> (int (card (set C)) \<le> n \<longrightarrow>
                  (\<exists>q b. item3 ?X i j 0 = Finite q
                       \<and> true_divide (nat (n - 1)) ?d = Finite b
                       \<and> 0 \<le> q \<and> q \<le> b \<and> b \<le> 1))
             \<and> (int (card (set C)) \<le> n \<and> int (card (set C)) \<le> 2 ^ 53 \<longrightarrow>
                  (\<exists>q. item3 ?X i j 0 = Finite q \<and> 0 \<le> q
                       \<and> q \<le> f64_nearest ((of_int n - 1) / of_int n)))
             \<and> (int (card (set C)) \<le> n \<and> n \<le> 2 ^ 53 \<longrightarrow>
                  item3 ?X i j 0 = Finite (f64_nearest (of_nat c / of_int n))
                  \<and> true_divide (nat (n - 1)) ?d
                      = Finite (f64_nearest ((of_int n - 1) / of_int n))))"
  proof (intro allI impI)
    fix i j :: nat assume i: "i < length C - 100" and j: "j < 100"
    then have le: "i + 100 \<le> length C" by simp
    let ?c = "window_codes 100 C i ! j"
    have cl: "?c < card (set C)" by (rule window_code_less [OF le j])
    have cv: "vocabulary C (C ! (i + j)) = Some ?c"
      using window_codes_nth [OF le j] by simp
    have il: "i < length ?rows" using i by simp
    have "i * 100 + j < (length C - 100) * 100"
    proof -
      have "i * 100 + j < (i + 1) * 100" using j by simp
      also have "\<dots> \<le> (length C - 100) * 100" using i by (intro mult_le_mono1) simp
      finally show ?thesis .
    qed
    then have idx: "i * 100 + j < length (concat ?rows)" using len by simp
    have "concat ?rows ! (i * 100 + j) = ?rows ! i ! j"
      by (rule concat_uniform_nth [OF u il j])
    then have "concat ?rows ! (i * 100 + j) = ?c" using i by simp
    then have it: "item3 ?X i j 0 = true_divide ?c ?d"
      using idx by (simp add: item3_def)
    have z: "n = 0 \<longrightarrow> item3 ?X i j 0 = (if ?c = 0 then NaN else Inf)"
    proof
      assume "n = 0"
      then have "true_divide ?c ?d = (if ?c = 0 then NaN else Inf)"
        by (simp only: entry_zero_divisor)
      with it show "item3 ?X i j 0 = (if ?c = 0 then NaN else Inf)" by (simp only:)
    qed
    have bd: "int (card (set C)) \<le> n \<longrightarrow>
                  (\<exists>q b. item3 ?X i j 0 = Finite q
                       \<and> true_divide (nat (n - 1)) ?d = Finite b
                       \<and> 0 \<le> q \<and> q \<le> b \<and> b \<le> 1)"
      unfolding it using entry_bounded [OF cl] by blast
    have py: "int (card (set C)) \<le> n \<and> int (card (set C)) \<le> 2 ^ 53 \<longrightarrow>
                  (\<exists>q. item3 ?X i j 0 = Finite q \<and> 0 \<le> q
                       \<and> q \<le> f64_nearest ((of_int n - 1) / of_int n))"
      unfolding it using entry_below_exact_bound [OF cl] by blast
    have ex: "int (card (set C)) \<le> n \<and> n \<le> 2 ^ 53 \<longrightarrow>
                  item3 ?X i j 0 = Finite (f64_nearest (of_nat ?c / of_int n))
                  \<and> true_divide (nat (n - 1)) ?d
                      = Finite (f64_nearest ((of_int n - 1) / of_int n))"
      unfolding it using entry_exact [OF cl] by blast
    from cl cv it z bd py ex
    show "\<exists>c < card (set C). vocabulary C (C ! (i + j)) = Some c
             \<and> item3 ?X i j 0 = true_divide c ?d
             \<and> (n = 0 \<longrightarrow> item3 ?X i j 0 = (if c = 0 then NaN else Inf))
             \<and> (int (card (set C)) \<le> n \<longrightarrow>
                  (\<exists>q b. item3 ?X i j 0 = Finite q
                       \<and> true_divide (nat (n - 1)) ?d = Finite b
                       \<and> 0 \<le> q \<and> q \<le> b \<and> b \<le> 1))
             \<and> (int (card (set C)) \<le> n \<and> int (card (set C)) \<le> 2 ^ 53 \<longrightarrow>
                  (\<exists>q. item3 ?X i j 0 = Finite q \<and> 0 \<le> q
                       \<and> q \<le> f64_nearest ((of_int n - 1) / of_int n)))
             \<and> (int (card (set C)) \<le> n \<and> n \<le> 2 ^ 53 \<longrightarrow>
                  item3 ?X i j 0 = Finite (f64_nearest (of_nat c / of_int n))
                  \<and> true_divide (nat (n - 1)) ?d
                      = Finite (f64_nearest ((of_int n - 1) / of_int n)))"
      by (intro exI [of _ ?c] conjI)
  qed
  show "\<exists>X Y. prepare_sequences C n = Inr (X, Y)
           \<and> shape X = [length C - 100, 100, 1]
           \<and> length (data X) = (length C - 100) * 100 * 1
           \<and> (\<forall>i < length C - 100. \<forall>j < 100.
               (\<exists>c < card (set C). vocabulary C (C ! (i + j)) = Some c
                  \<and> item3 X i j 0 = true_divide c (f64_of_int n)
                  \<and> (n = 0 \<longrightarrow> item3 X i j 0 = (if c = 0 then NaN else Inf))
                  \<and> (int (card (set C)) \<le> n \<longrightarrow>
                       (\<exists>q b. item3 X i j 0 = Finite q
                            \<and> true_divide (nat (n - 1)) (f64_of_int n) = Finite b
                            \<and> 0 \<le> q \<and> q \<le> b \<and> b \<le> 1))
                  \<and> (int (card (set C)) \<le> n \<and> int (card (set C)) \<le> 2 ^ 53 \<longrightarrow>
                       (\<exists>q. item3 X i j 0 = Finite q \<and> 0 \<le> q
                            \<and> q \<le> f64_nearest ((of_int n - 1) / of_int n)))
                  \<and> (int (card (set C)) \<le> n \<and> n \<le> 2 ^ 53 \<longrightarrow>
                       item3 X i j 0 = Finite (f64_nearest (of_nat c / of_int n))
                       \<and> true_divide (nat (n - 1)) (f64_of_int n)
                           = Finite (f64_nearest ((of_int n - 1) / of_int n)))))"
    by (intro exI [of _ ?X] exI [of _ ?Y] conjI b sh ld c)
qed

text \<open>
  The theorem at the corpus \<open>B A ... A\<close> with class count 2.
\<close>

theorem C5_input_tensor_normalised_witness:
  "100 < length late_token_corpus
   \<and> \<bar>of_int 2 :: rat\<bar> < f64_overflow
   \<and> int (card (set late_token_corpus)) \<le> 2 \<and> (2::int) \<le> 2 ^ 53
   \<and> int (card (set late_token_corpus)) \<le> 2 ^ 53
   \<and> prepare_sequences late_token_corpus 2 =
       Inr (\<lparr>shape = [1, 100, 1], data = Finite (1 / 2) # replicate 99 (Finite 0)\<rparr>,
            \<lparr>shape = [1, 1], data = [1]\<rparr>)
   \<and> vocabulary late_token_corpus (late_token_corpus ! (0 + 0)) = Some 1
   \<and> item3 (fst (projr (prepare_sequences late_token_corpus 2))) 0 0 0
        = Finite (f64_nearest (of_nat 1 / of_int 2))
   \<and> true_divide (nat (2 - 1)) (f64_of_int 2) = Finite (f64_nearest ((of_int 2 - 1) / of_int 2))
   \<and> f64_nearest (of_nat 1 / of_int 2) = 1 / 2
   \<and> f64_nearest ((of_int 2 - 1) / of_int 2) = 1 / 2"
proof -
  have h: "100 < length late_token_corpus" by (simp add: late_token_corpus_def)
  have f: "\<bar>of_int 2 :: rat\<bar> < f64_overflow" by (rule small_below_overflow) simp
  have v: "int (card (set late_token_corpus)) \<le> 2" by code_simp
  then have v53: "int (card (set late_token_corpus)) \<le> 2 ^ 53" by simp
  have s: "(2::int) \<le> 2 ^ 53" by simp
  note e = late_token_corpus_tensors_2
  have k: "vocabulary late_token_corpus (late_token_corpus ! (0 + 0)) = Some 1" by code_simp
  have r: "f64_nearest (of_nat 1 / of_int 2) = 1 / 2" "f64_nearest ((of_int 2 - 1) / of_int 2) = 1 / 2"
    by (simp_all add: f64_nearest_half)
  from C5_input_tensor_normalised [OF h, of 2] f obtain X Y where
    xy: "prepare_sequences late_token_corpus 2 = Inr (X, Y)"
    and en: "\<forall>i < length late_token_corpus - 100. \<forall>j < 100.
               (\<exists>c < card (set late_token_corpus). vocabulary late_token_corpus (late_token_corpus ! (i + j)) = Some c
                  \<and> item3 X i j 0 = true_divide c (f64_of_int 2)
                  \<and> ((2::int) = 0 \<longrightarrow> item3 X i j 0 = (if c = 0 then NaN else Inf))
                  \<and> (int (card (set late_token_corpus)) \<le> (2::int) \<longrightarrow>
                       (\<exists>q b. item3 X i j 0 = Finite q
                            \<and> true_divide (nat ((2::int) - 1)) (f64_of_int 2) = Finite b
                            \<and> 0 \<le> q \<and> q \<le> b \<and> b \<le> 1))
                  \<and> (int (card (set late_token_corpus)) \<le> (2::int) \<and> int (card (set late_token_corpus)) \<le> 2 ^ 53 \<longrightarrow>
                       (\<exists>q. item3 X i j 0 = Finite q \<and> 0 \<le> q
                            \<and> q \<le> f64_nearest ((of_int (2::int) - 1) / of_int (2::int))))
                  \<and> (int (card (set late_token_corpus)) \<le> (2::int) \<and> (2::int) \<le> 2 ^ 53 \<longrightarrow>
                       item3 X i j 0 = Finite (f64_nearest (of_nat c / of_int (2::int)))
                       \<and> true_divide (nat ((2::int) - 1)) (f64_of_int 2)
                           = Finite (f64_nearest ((of_int (2::int) - 1) / of_int (2::int)))))"
    by blast
  have i0: "0 < length late_token_corpus - 100" using h by simp
  have j0: "(0::nat) < 100" by simp
  from en [rule_format, OF i0 j0] obtain c where
    c: "vocabulary late_token_corpus (late_token_corpus ! (0 + 0)) = Some c"
       "int (card (set late_token_corpus)) \<le> (2::int) \<and> (2::int) \<le> 2 ^ 53 \<longrightarrow>
                       item3 X 0 0 0 = Finite (f64_nearest (of_nat c / of_int (2::int)))
                       \<and> true_divide (nat ((2::int) - 1)) (f64_of_int 2)
                           = Finite (f64_nearest ((of_int (2::int) - 1) / of_int (2::int)))"
    by (elim exE conjE)
  from c(1) k have c1: "c = 1" by simp
  from c(2) v s c1 have it: "item3 X 0 0 0 = Finite (f64_nearest (of_nat 1 / of_int 2))"
    and bd: "true_divide (nat (2 - 1)) (f64_of_int 2) = Finite (f64_nearest ((of_int 2 - 1) / of_int 2))"
    by blast+
  have "fst (projr (prepare_sequences late_token_corpus 2)) = X" by (simp only: xy sum.sel fst_conv)
  with it have it': "item3 (fst (projr (prepare_sequences late_token_corpus 2))) 0 0 0
        = Finite (f64_nearest (of_nat 1 / of_int 2))"
    by (simp only:)
  from h f v s v53 e k it' bd r show ?thesis by (intro conjI)
qed

text \<open>
  The bound fails for a class count below the vocabulary size: with class count 1 on
  the corpus \<open>B A ... A\<close> (two distinct tokens), the first entry is \<open>1 / 1.0 = 1.0\<close>,
  above \<open>(1 - 1) / 1 = 0\<close>.
\<close>

theorem C5_bound_counterexample:
  "100 < length late_token_corpus
   \<and> card (set late_token_corpus) = 2
   \<and> prepare_sequences late_token_corpus 1 =
       Inr (\<lparr>shape = [1, 100, 1], data = Finite 1 # replicate 99 (Finite 0)\<rparr>,
            \<lparr>shape = [1, 1], data = [1]\<rparr>)
   \<and> item3 (fst (projr (prepare_sequences late_token_corpus 1))) 0 0 0 = Finite 1
   \<and> true_divide (nat (1 - 1)) (f64_of_int 1) = Finite 0
   \<and> \<not> ((1::rat) \<le> 0)
   \<and> \<not> ((1::rat) \<le> (of_int 1 - 1) / of_int 1)"
proof -
  have h: "100 < length late_token_corpus" by (simp add: late_token_corpus_def)
  have c: "card (set late_token_corpus) = 2" by code_simp
  note e = late_token_corpus_tensors_1
  have i: "item3 (fst (projr (prepare_sequences late_token_corpus 1))) 0 0 0 = Finite 1"
    unfolding e by (simp add: item3_def)
  have "f64_of_int 1 = 1" using f64_of_int_exact [of 1] by simp
  then have b: "true_divide (nat (1 - 1)) (f64_of_int 1) = Finite 0"
    by (simp add: true_divide_0)
  have n: "\<not> ((1::rat) \<le> 0)" "\<not> ((1::rat) \<le> (of_int 1 - 1) / of_int 1)" by simp_all
  from h c e i b n show ?thesis by (intro conjI)
qed

text \<open>Rounding can carry an entry above the exact quotient: \<open>9 / 10.0\<close> is the
  \<open>float64\<close> just above nine tenths.\<close>

lemma nine_tenths_rounds_up:
  "f64_nearest (9 / 10) = 8106479329266893 / 9007199254740992"
  "(9::rat) / 10 < f64_nearest (9 / 10)"
proof -
  show e: "f64_nearest (9 / 10) = 8106479329266893 / 9007199254740992" by code_simp
  show "(9::rat) / 10 < f64_nearest (9 / 10)" unfolding e by simp
qed

text \<open>
  The loop only reads the caller's list.
\<close>

lemma loop_body_notes: "notes_list (snd (loop_body W d i s)) = notes_list s"
  by (simp add: loop_body_def Let_def split: sum.splits)

lemma for_loop_notes: "notes_list (snd (for_loop W d is s)) = notes_list s"
proof (induction "is" arbitrary: s)
  case Nil
  then show ?case by simp
next
  case (Cons i "is")
  obtain r s' where b: "loop_body W d i s = (r, s')" by (cases "loop_body W d i s")
  with loop_body_notes [of W d i s] have n: "notes_list s' = notes_list s" by simp
  show ?case
  proof (cases r)
    case None
    with b n Cons.IH [of s'] show ?thesis by simp
  next
    case (Some e)
    with b n show ?thesis by simp
  qed
qed

text \<open>
  C9. \<open>prepare_sequences\<close> never modifies its input corpus: for every corpus \<open>C\<close>
  and every class count, whether the call returns or raises, the caller's list holds the
  same tokens in the same order when the call stops as when it started.
\<close>

theorem C9_corpus_unchanged:
  "notes_list (snd (prepare_sequences_with sequence_length C n)) = C
   \<and> prepare_sequences C n = fst (prepare_sequences_with sequence_length C n)"
proof -
  obtain r s where w: "windowing sequence_length C = (r, s)"
    by (cases "windowing sequence_length C")
  have "notes_list (snd (windowing sequence_length C)) = C"
    by (simp add: windowing_def for_loop_notes)
  with w have "notes_list s = C" by simp
  with w show ?thesis
    by (cases r) (simp_all add: prepare_sequences_with_def prepare_sequences_def)
qed

text \<open>
  The examples and the quotients of the scenario's corpus with window length 2.
\<close>

lemma scenario_windows:
  "map (window_codes 2 scenario_corpus) [0 ..< length scenario_corpus - 2] = [[0, 1], [1, 2]]"
  by code_simp

lemma scenario_targets:
  "map (target_code 2 scenario_corpus) [0 ..< length scenario_corpus - 2] = [2, 0]"
  by code_simp

lemma f64_nearest_thirds:
  "f64_nearest (1 / 3) = 6004799503160661 / 18014398509481984"
  "f64_nearest (2 / 3) = 6004799503160661 / 9007199254740992"
  by code_simp+

lemma true_divide_thirds:
  "true_divide 0 3 = Finite 0"
  "true_divide (Suc 0) 3 = Finite (6004799503160661 / 18014398509481984)"
  "true_divide 2 3 = Finite (6004799503160661 / 9007199254740992)"
  using true_divide_exact_unit [of 0 3] true_divide_exact_unit [of 1 3]
    true_divide_exact_unit [of 2 3]
  by (simp_all add: f64_nearest_zero f64_nearest_thirds)

text \<open>
  C8, as the code has it. For the corpus \<open>C4 D4 E4 C4\<close> the encoder builds the
  vocabulary \<open>C4: 0, D4: 1, E4: 2\<close>. Its window length is the constant 100, so
  \<open>prepare_sequences\<close> itself builds no example from these four tokens. The two
  examples of the scenario, \<open>[0, 1]\<close> with target 2 and \<open>[1, 2]\<close> with target 0, an
  input tensor of shape \<open>(2, 2, 1)\<close> and a target tensor of shape \<open>(2, 3)\<close>, are what
  the same procedure yields when its window length is 2 (here with class count 3, the
  entries being the \<open>float64\<close> values of \<open>0\<close>, \<open>1 / 3\<close> and \<open>2 / 3\<close>).
\<close>

theorem C8_scenario_window_two:
  "pitch_names_of scenario_corpus = [''C4'', ''D4'', ''E4'']
   \<and> dom (vocabulary scenario_corpus) = {''C4'', ''D4'', ''E4''}
   \<and> vocabulary scenario_corpus ''C4'' = Some 0
   \<and> vocabulary scenario_corpus ''D4'' = Some 1
   \<and> vocabulary scenario_corpus ''E4'' = Some 2
   \<and> sequence_length = 100
   \<and> input_sequences (snd (training_examples scenario_corpus)) = []
   \<and> windowing 2 scenario_corpus =
        (None, \<lparr>notes_list = scenario_corpus,
                input_sequences = [[0, 1], [1, 2]], output_sequence = [2, 0]\<rparr>)
   \<and> fst (prepare_sequences_with 2 scenario_corpus 3) =
        Inr (\<lparr>shape = [2, 2, 1],
              data = [Finite 0, Finite (6004799503160661 / 18014398509481984),
                      Finite (6004799503160661 / 18014398509481984),
                      Finite (6004799503160661 / 9007199254740992)]\<rparr>,
             \<lparr>shape = [2, 3], data = [0, 0, 1, 1, 0, 0]\<rparr>)"
proof -
  have n: "pitch_names_of scenario_corpus = [''C4'', ''D4'', ''E4'']" by code_simp
  have d: "dom (vocabulary scenario_corpus) = {''C4'', ''D4'', ''E4''}"
    by (auto simp: vocabulary_dom scenario_corpus_def)
  have v: "vocabulary scenario_corpus ''C4'' = Some 0"
    "vocabulary scenario_corpus ''D4'' = Some 1"
    "vocabulary scenario_corpus ''E4'' = Some 2"
    by code_simp+
  have s: "sequence_length = 100" by (rule sequence_length_def)
  have t: "input_sequences (snd (training_examples scenario_corpus)) = []" by code_simp
  have w: "windowing 2 scenario_corpus =
        (None, \<lparr>notes_list = scenario_corpus,
                input_sequences = [[0, 1], [1, 2]], output_sequence = [2, 0]\<rparr>)"
    by code_simp
  have l: "2 < length scenario_corpus" "length scenario_corpus - 2 = 2"
    by (simp_all add: scenario_corpus_def)
  have f: "py_float 3 = Inr 3" using py_float_exact [of 3] by simp
  have o: "one_hot 3 2 = [0, 0, 1]" "one_hot 3 0 = [1, 0, 0]" by (simp_all add: one_hot_def upt_rec)
  have p: "fst (prepare_sequences_with 2 scenario_corpus 3) =
        Inr (\<lparr>shape = [2, 2, 1],
              data = [Finite 0, Finite (6004799503160661 / 18014398509481984),
                      Finite (6004799503160661 / 18014398509481984),
                      Finite (6004799503160661 / 9007199254740992)]\<rparr>,
             \<lparr>shape = [2, 3], data = [0, 0, 1, 1, 0, 0]\<rparr>)"
    unfolding prepare_sequences_with_long [OF l(1) f] scenario_windows scenario_targets
    by (simp add: l(2) true_divide_thirds o)
  from n d v s t w p show ?thesis by (intro conjI)
qed

text \<open>
  With the window length of the code, 100, the scenario's corpus of four tokens gives no
  example at all, so the encoder does not yield the two examples and the two tensors.
\<close>

theorem C8_fixed_window_counterexample:
  "sequence_length \<noteq> 2
   \<and> length scenario_corpus \<le> sequence_length
   \<and> training_examples scenario_corpus =
        (None, \<lparr>notes_list = scenario_corpus, input_sequences = [], output_sequence = []\<rparr>)
   \<and> input_sequences (snd (training_examples scenario_corpus)) \<noteq> [[0, 1], [1, 2]]
   \<and> prepare_sequences scenario_corpus 3 \<noteq>
        Inr (\<lparr>shape = [2, 2, 1],
              data = [Finite 0, Finite (6004799503160661 / 18014398509481984),
                      Finite (6004799503160661 / 18014398509481984),
                      Finite (6004799503160661 / 9007199254740992)]\<rparr>,
             \<lparr>shape = [2, 3], data = [0, 0, 1, 1, 0, 0]\<rparr>)"
proof -
  have l: "length scenario_corpus \<le> 100" by (simp add: scenario_corpus_def)
  have e: "training_examples scenario_corpus =
        (None, \<lparr>notes_list = scenario_corpus, input_sequences = [], output_sequence = []\<rparr>)"
    by (simp add: training_examples_def sequence_length_def windowing_eq scenario_corpus_def)
  have f: "py_float 3 = Inr 3" using py_float_exact [of 3] by simp
  have p: "prepare_sequences scenario_corpus 3 = Inl ValueError"
    using prepare_sequences_with_short [OF l f]
    by (simp add: prepare_sequences_def sequence_length_def)
  from l e p show ?thesis by (simp add: sequence_length_def)
qed

section \<open>What \<open>get_notes\<close> computes\<close>

lemma append_structures_append:
  "append_structures stream ns = ns @ append_structures stream []"
proof (induction stream arbitrary: ns)
  case Nil
  then show ?case by simp
next
  case (Cons x stream)
  show ?case
  proof (cases x)
    case (Note pitch)
    with Cons.IH [of "ns @ [pitch]"] Cons.IH [of "[pitch]"] show ?thesis by simp
  next
    case (Chord normalOrder)
    with Cons.IH [of "ns @ [py_join ''.'' (map py_str normalOrder)]"]
      Cons.IH [of "[py_join ''.'' (map py_str normalOrder)]"] show ?thesis by simp
  next
    case Other
    with Cons.IH [of ns] show ?thesis by simp
  qed
qed

lemma append_structures_tokens:
  "append_structures stream ns = ns @ stream_tokens stream"
  using append_structures_append [of stream ns] by (simp add: stream_tokens_def)

lemma files_loop_files: "files (snd (files_loop env fs ns w)) = files w"
proof (induction fs arbitrary: ns w)
  case Nil
  then show ?case by simp
next
  case (Cons f fs)
  show ?case
  proof (cases "converter_parse env f")
    case (Inl e)
    then show ?thesis by simp
  next
    case (Inr parsed_midi)
    show ?thesis
    proof (cases "notes_by_instrument env parsed_midi")
      case (Inl e)
      with Inr show ?thesis by simp
    next
      case (Inr stream)
      with \<open>converter_parse env f = Inr parsed_midi\<close>
        Cons.IH [of "append_structures stream ns" "w\<lparr>console := console w @ [''Parsing file '' @ f]\<rparr>"]
      show ?thesis by simp
    qed
  qed
qed

lemma files_loop_step_ok:
  assumes "file_stream env f = Inr stream"
  shows "files_loop env (f # fs) ns w =
     files_loop env fs (ns @ file_tokens env f) (w\<lparr>console := console w @ [''Parsing file '' @ f]\<rparr>)"
proof -
  from assms obtain parsed_midi where
    "converter_parse env f = Inr parsed_midi" "notes_by_instrument env parsed_midi = Inr stream"
    by (auto simp: file_stream_def split: sum.splits)
  with assms show ?thesis
    by (simp add: file_tokens_def append_structures_tokens)
qed

lemma files_loop_step_fail:
  assumes "file_stream env f = Inl e"
  shows "files_loop env (f # fs) ns w = (Inl e, w\<lparr>console := console w @ [''Parsing file '' @ f]\<rparr>)"
  using assms by (auto simp: file_stream_def split: sum.splits)

lemma files_loop_ok:
  assumes "\<forall>g\<in>set fs. \<exists>stream. file_stream env g = Inr stream"
  shows "files_loop env fs ns w =
     (Inr (ns @ concat (map (file_tokens env) fs)),
      w\<lparr>console := console w @ map (\<lambda>g. ''Parsing file '' @ g) fs\<rparr>)"
  using assms
proof (induction fs arbitrary: ns w)
  case Nil
  then show ?case by simp
next
  case (Cons f fs)
  from Cons.prems obtain stream where st: "file_stream env f = Inr stream" by auto
  from Cons.prems have rest: "\<forall>g\<in>set fs. \<exists>stream. file_stream env g = Inr stream" by simp
  show ?case
    unfolding files_loop_step_ok [OF st] Cons.IH [OF rest] by simp
qed

lemma files_loop_fail:
  assumes "\<forall>g\<in>set pre. \<exists>stream. file_stream env g = Inr stream"
      and "file_stream env f = Inl e"
  shows "files_loop env (pre @ f # post) ns w =
     (Inl e, w\<lparr>console := console w @ map (\<lambda>g. ''Parsing file '' @ g) (pre @ [f])\<rparr>)"
  using assms(1)
proof (induction pre arbitrary: ns w)
  case Nil
  then show ?case by (simp add: files_loop_step_fail [OF assms(2)] del: files_loop.simps)
next
  case (Cons g pre)
  from Cons.prems obtain stream where st: "file_stream env g = Inr stream" by auto
  from Cons.prems have rest: "\<forall>g\<in>set pre. \<exists>stream. file_stream env g = Inr stream" by simp
  show ?case
    using files_loop_step_ok [OF st, of "pre @ f # post" ns w] Cons.IH [OF rest] by simp
qed

lemma files_loop_returns:
  assumes "fst (files_loop env fs ns w) = Inr c"
  shows "\<forall>g\<in>set fs. \<exists>stream. file_stream env g = Inr stream"
  using assms
proof (induction fs arbitrary: ns w)
  case Nil
  then show ?case by simp
next
  case (Cons f fs)
  show ?case
  proof (cases "file_stream env f")
    case (Inl e)
    with Cons.prems files_loop_step_fail [OF Inl, of fs ns w] show ?thesis by simp
  next
    case (Inr stream)
    with Cons.prems files_loop_step_ok [OF Inr, of fs ns w] Cons.IH show ?thesis by auto
  qed
qed

lemma files_loop_first_failure:
  assumes "f \<in> set fs" and "file_stream env f = Inl e"
  shows "\<exists>e'. fst (files_loop env fs ns w) = Inl e'"
proof (cases "fst (files_loop env fs ns w)")
  case (Inl e')
  then show ?thesis by blast
next
  case (Inr c)
  from files_loop_returns [OF Inr] assms show ?thesis by auto
qed


lemma get_notes_files_on_error:
  assumes "fst (get_notes env directory w) = Inl e"
  shows "files (snd (get_notes env directory w)) = files w"
proof -
  obtain r w1 where l: "files_loop env (glob_glob env directory) [] w = (r, w1)"
    by (cases "files_loop env (glob_glob env directory) [] w")
  with files_loop_files [of env "glob_glob env directory" "[]" w] have "files w1 = files w" by simp
  with l assms show ?thesis
    by (cases r; cases "open_for_writing w1 ''data/notes''") (simp_all add: get_notes_def)
qed


lemma get_notes_open_fails:
  assumes "\<forall>g\<in>set (glob_glob env directory). \<exists>stream. file_stream env g = Inr stream"
      and "open_for_writing w ''data/notes'' = Some e"
  shows "get_notes env directory w =
     (Inl e, w\<lparr>console := console w @ map (\<lambda>g. ''Parsing file '' @ g) (glob_glob env directory)\<rparr>)"
  using assms(2) by (simp add: get_notes_def files_loop_ok [OF assms(1)])


section \<open>Claims about the event extractor\<close>

text \<open>
  C6. In \<open>get_notes\<close>, a parse failure of a file is not caught: when the files before
  it are processed without an exception, the exception of the parser is the outcome of
  the whole run, and whenever some matched file fails to parse the run ends with an
  exception; in both cases no file is written, so no partial corpus is persisted. Any
  exception of the instrument partitioning of a parsed score, whatever it is, is
  recovered: the stream of the file is then the flattened note stream of the whole
  score, and the loop goes on with the next file.
\<close>

theorem C6_parse_failure_aborts_partition_failure_falls_back:
  "(glob_glob env directory = pre @ file # post
      \<and> (\<forall>g\<in>set pre. \<exists>stream. file_stream env g = Inr stream)
      \<and> converter_parse env file = Inl e
    \<longrightarrow> fst (get_notes env directory w) = Inl e
        \<and> files (snd (get_notes env directory w)) = files w)
   \<and> (file \<in> set (glob_glob env directory) \<and> converter_parse env file = Inl e
    \<longrightarrow> (\<exists>e'. fst (get_notes env directory w) = Inl e')
        \<and> files (snd (get_notes env directory w)) = files w)
   \<and> (instrument_part_stream env parsed_midi = Inl e
    \<longrightarrow> notes_by_instrument env parsed_midi = flat_notes env parsed_midi)
   \<and> (converter_parse env file = Inr parsed_midi
      \<and> instrument_part_stream env parsed_midi = Inl e
      \<and> flat_notes env parsed_midi = Inr stream
    \<longrightarrow> file_stream env file = Inr stream
        \<and> files_loop env (file # post) ns w =
            files_loop env post (ns @ stream_tokens stream)
              (w\<lparr>console := console w @ [''Parsing file '' @ file]\<rparr>))"
proof (intro conjI impI)
  assume a: "glob_glob env directory = pre @ file # post
      \<and> (\<forall>g\<in>set pre. \<exists>stream. file_stream env g = Inr stream)
      \<and> converter_parse env file = Inl e"
  then have f: "file_stream env file = Inl e" by (simp add: file_stream_def)
  from a have p: "\<forall>g\<in>set pre. \<exists>stream. file_stream env g = Inr stream" by simp
  from a files_loop_fail [OF p f, of post "[]" w]
  show r: "fst (get_notes env directory w) = Inl e" by (simp add: get_notes_def)
  from get_notes_files_on_error [OF r]
  show "files (snd (get_notes env directory w)) = files w" .
next
  assume a: "file \<in> set (glob_glob env directory) \<and> converter_parse env file = Inl e"
  then have f: "file_stream env file = Inl e" by (simp add: file_stream_def)
  from a have m: "file \<in> set (glob_glob env directory)" by simp
  from files_loop_first_failure [OF m f, of "[]" w] obtain e' where
    l: "fst (files_loop env (glob_glob env directory) [] w) = Inl e'" by blast
  obtain r w1 where rw: "files_loop env (glob_glob env directory) [] w = (r, w1)"
    by (cases "files_loop env (glob_glob env directory) [] w")
  with l have r: "fst (get_notes env directory w) = Inl e'" by (simp add: get_notes_def)
  then show "\<exists>e'. fst (get_notes env directory w) = Inl e'" by blast
  from get_notes_files_on_error [OF r]
  show "files (snd (get_notes env directory w)) = files w" .
next
  assume "instrument_part_stream env parsed_midi = Inl e"
  then show "notes_by_instrument env parsed_midi = flat_notes env parsed_midi"
    by (simp add: notes_by_instrument_def)
next
  assume a: "converter_parse env file = Inr parsed_midi
      \<and> instrument_part_stream env parsed_midi = Inl e
      \<and> flat_notes env parsed_midi = Inr stream"
  then show f: "file_stream env file = Inr stream"
    by (simp add: file_stream_def notes_by_instrument_def)
  from files_loop_step_ok [OF f, of post ns w] f
  show "files_loop env (file # post) ns w =
            files_loop env post (ns @ stream_tokens stream)
              (w\<lparr>console := console w @ [''Parsing file '' @ file]\<rparr>)"
    by (simp add: file_tokens_def)
qed

text \<open>
  The theorem at the concrete collaborators: the second of three files does not parse,
  and the score of \<open>midi/b.mid\<close> has no instrument parts.
\<close>

theorem C6_parse_failure_aborts_partition_failure_falls_back_witness:
  "glob_glob demo_env ''mixed/*'' = [''midi/a.mid''] @ ''mixed/readme.txt'' # [''midi/b.mid'']
   \<and> file_stream demo_env ''midi/a.mid'' = Inr [Other, Note ''C4'', Chord [0, 4, 7]]
   \<and> converter_parse demo_env ''mixed/readme.txt'' = Inl (OtherError ''not a score'')
   \<and> fst (get_notes demo_env ''mixed/*'' demo_world) = Inl (OtherError ''not a score'')
   \<and> files (snd (get_notes demo_env ''mixed/*'' demo_world)) = files demo_world
   \<and> files (snd (get_notes demo_env ''mixed/*'' demo_world)) ''data/notes'' = Some [''G4'']
   \<and> converter_parse demo_env ''midi/b.mid'' = Inr ''score b''
   \<and> instrument_part_stream demo_env ''score b'' = Inl AttributeError
   \<and> flat_notes demo_env ''score b'' = Inr [Note ''E4'', Other, Note ''C4'']
   \<and> notes_by_instrument demo_env ''score b'' = flat_notes demo_env ''score b''
   \<and> file_stream demo_env ''midi/b.mid'' = Inr [Note ''E4'', Other, Note ''C4'']"
proof -
  have g: "glob_glob demo_env ''mixed/*'' = [''midi/a.mid''] @ ''mixed/readme.txt'' # [''midi/b.mid'']"
    by (simp add: demo_env_def)
  have a: "file_stream demo_env ''midi/a.mid'' = Inr [Other, Note ''C4'', Chord [0, 4, 7]]"
    by code_simp
  then have pre: "\<forall>g\<in>set [''midi/a.mid'']. \<exists>stream. file_stream demo_env g = Inr stream"
    by simp
  have p: "converter_parse demo_env ''mixed/readme.txt'' = Inl (OtherError ''not a score'')"
    by (simp add: demo_env_def)
  have b: "converter_parse demo_env ''midi/b.mid'' = Inr ''score b''"
    by (simp add: demo_env_def)
  have i: "instrument_part_stream demo_env ''score b'' = Inl AttributeError"
    by code_simp
  have fl: "flat_notes demo_env ''score b'' = Inr [Note ''E4'', Other, Note ''C4'']"
    by (simp add: demo_env_def)
  have old: "files demo_world ''data/notes'' = Some [''G4'']"
    by (simp add: demo_world_def)
  note t1 = C6_parse_failure_aborts_partition_failure_falls_back
    [of demo_env "''mixed/*''" "[''midi/a.mid'']" "''mixed/readme.txt''" "[''midi/b.mid'']"
        "OtherError ''not a score''" demo_world]
  note t2 = C6_parse_failure_aborts_partition_failure_falls_back
    [of demo_env _ _ "''midi/b.mid''" _ AttributeError _ "''score b''"
        "[Note ''E4'', Other, Note ''C4'']"]
  from t1 g pre p have r1: "fst (get_notes demo_env ''mixed/*'' demo_world) = Inl (OtherError ''not a score'')"
    and r2: "files (snd (get_notes demo_env ''mixed/*'' demo_world)) = files demo_world"
    by blast+
  from t2 i have r3: "notes_by_instrument demo_env ''score b'' = flat_notes demo_env ''score b''"
    by blast
  from t2 b i fl have r4: "file_stream demo_env ''midi/b.mid'' = Inr [Note ''E4'', Other, Note ''C4'']"
    by blast
  from r2 old have r5: "files (snd (get_notes demo_env ''mixed/*'' demo_world)) ''data/notes'' = Some [''G4'']"
    by simp
  from g a p r1 r2 r5 b i fl r3 r4 show ?thesis by (intro conjI)
qed



text \<open>
  C10, as the code has it. If the pattern matches no file and \<open>data/notes\<close> can be
  opened for writing, \<open>get_notes\<close> does not raise: it returns the empty corpus and
  writes the serialised empty list to \<open>data/notes\<close>, whatever that path held before.
  If the file cannot be opened (the directory \<open>data\<close> does not exist, or may not be
  written), the exception of \<open>open\<close> is the outcome of the call and no file is
  written.
\<close>

theorem C10_no_files_matched:
  assumes "glob_glob env directory = []"
  shows "(open_for_writing w ''data/notes'' = None \<longrightarrow>
            get_notes env directory w =
              (Inr [], w\<lparr>files := (files w)(''data/notes'' \<mapsto> pickle_dump env [])\<rparr>)
            \<and> fst (get_notes env directory w) = Inr []
            \<and> files (snd (get_notes env directory w)) ''data/notes'' = Some (pickle_dump env []))
     \<and> (open_for_writing w ''data/notes'' = Some e \<longrightarrow>
            get_notes env directory w = (Inl e, w))"
  using assms by (simp add: get_notes_def)

text \<open>
  The theorem at a pattern that matches nothing, in a world where \<open>data/notes\<close> held a
  corpus.
\<close>

theorem C10_no_files_matched_witness:
  "glob_glob demo_env ''empty/*.mid'' = []
   \<and> open_for_writing demo_world ''data/notes'' = None
   \<and> files demo_world ''data/notes'' = Some [''G4'']
   \<and> fst (get_notes demo_env ''empty/*.mid'' demo_world) = Inr []
   \<and> files (snd (get_notes demo_env ''empty/*.mid'' demo_world)) ''data/notes'' = Some []"
proof -
  have g: "glob_glob demo_env ''empty/*.mid'' = []" by (simp add: demo_env_def)
  have o: "open_for_writing demo_world ''data/notes'' = None" by (simp add: demo_world_def)
  have old: "files demo_world ''data/notes'' = Some [''G4'']" by (simp add: demo_world_def)
  have d: "pickle_dump demo_env [] = []" by (simp add: demo_env_def)
  from C10_no_files_matched [OF g, of demo_world] o
  have "fst (get_notes demo_env ''empty/*.mid'' demo_world) = Inr []"
    and "files (snd (get_notes demo_env ''empty/*.mid'' demo_world)) ''data/notes''
           = Some (pickle_dump demo_env [])"
    by blast+
  with g o old d show ?thesis by simp
qed

text \<open>
  Where the directory \<open>data\<close> does not exist, \<open>get_notes\<close> raises
  \<open>FileNotFoundError\<close> although no file was matched, and no artifact is written.
\<close>

theorem C10_missing_directory_counterexample:
  "glob_glob demo_env ''empty/*.mid'' = []
   \<and> open_for_writing no_data_directory_world ''data/notes'' = Some FileNotFoundError
   \<and> get_notes demo_env ''empty/*.mid'' no_data_directory_world
        = (Inl FileNotFoundError, no_data_directory_world)
   \<and> fst (get_notes demo_env ''empty/*.mid'' no_data_directory_world) \<noteq> Inr []
   \<and> files (snd (get_notes demo_env ''empty/*.mid'' no_data_directory_world)) ''data/notes'' = None"
proof -
  have g: "glob_glob demo_env ''empty/*.mid'' = []" by (simp add: demo_env_def)
  have o: "open_for_writing no_data_directory_world ''data/notes'' = Some FileNotFoundError"
    by (simp add: no_data_directory_world_def)
  have r: "get_notes demo_env ''empty/*.mid'' no_data_directory_world
        = (Inl FileNotFoundError, no_data_directory_world)"
    using g o by (simp add: get_notes_def)
  have f: "files no_data_directory_world ''data/notes'' = None"
    by (simp add: no_data_directory_world_def)
  from g o r f show ?thesis by simp
qed

end
